theory Spec2Isabelle
  imports Main
begin

section \<open>storelet: the store of \<open>createStore\<close>, its mutation queue and its flush loop\<close>

text \<open>
  The development embeds the one module of the library (\<open>createStore\<close> with its
  \<open>ContextBase\<close> object, \<open>useStore\<close>, \<open>update\<close> and \<open>connect\<close>).

  Conventions of the embedding.
  \<^item> A context object (\<open>StoreContext\<close>) is a record; the methods \<open>add\<close> and \<open>flush\<close>
    take the object that \<open>this\<close> denotes and return it updated. \<open>connect\<close> builds a new
    provider value at every render, a copy of \<open>ContextBase\<close> with its own \<open>state\<close> and
    \<open>isFlushing\<close>, which shares the array \<open>mutatorsQueue\<close> with the other copies. A record
    of type \<open>StoreContext\<close> is one such object together with the present content of the
    shared array; \<open>connect_render\<close> gives the object of a later render, and
    \<open>seen_through\<close> the object of an earlier render at a later moment. A mutator or a
    listener that calls \<open>update\<close> while it runs calls it on the object whose loop is
    running; a call through the object of another render is a call of \<open>update\<close> on that
    object as \<open>seen_through\<close> gives it.
  \<^item> A thrown exception is the outcome \<open>Thrown e\<close>, paired with the context object as
    the throw leaves it. Mutators may throw, and so may the listener; \<open>resolve\<close> and the
    setter are taken to return.
  \<^item> The calls that leave the module (the mutative engine \<open>create\<close>, the \<open>listen\<close>
    callback, \<open>deferredPromise.resolve\<close>, the \<open>setState\<close> setter) are appended to
    the log \<open>effects\<close> of the context object, in the order in which they are made.
  \<^item> A mutator or a listener is described by what the module can observe of it: the
    \<open>update\<close> calls it issues while it runs (each one a list of mutators), the error it
    throws, if any, and, for a mutator that returns, the content it leaves in the draft.
  \<^item> \<open>process.env.APP_ENV\<close> is read at every step; it is taken not to change.
  \<^item> The \<open>while\<close> loop of \<open>flush\<close> need not end (a listener may enqueue a step at
    each step), so the loop carries fuel: \<open>None\<close> is "no result within the fuel".
\<close>

subsection \<open>Types of the module\<close>

datatype error = Error string

datatype 'a outcome = Returned 'a | Thrown error

text \<open>
  \<open>type Mutator<State> = (state: Draft<State>, oldState: State) => void\<close>.
  The first argument is the content of the draft when the mutator starts, the second is
  \<open>oldState\<close>. The result is the list of \<open>update\<close> calls the mutator issues while it
  runs, and either the error it throws or the content of the draft when it returns.
\<close>

datatype 's mutator =
  Mutator (run: "'s \<Rightarrow> 's \<Rightarrow> 's mutator list list \<times> (error + 's)")

record ('s, 'p) ListenData =
  newState :: 's
  oldState :: 's
  patches :: "'p list"

text \<open>\<open>interface MutatorQueueItem\<close>; a deferred promise is named by its number of creation.\<close>

record 's MutatorQueueItem =
  mutator :: "'s mutator"
  deferredPromise :: "nat option"

text \<open>The calls that leave the module, and the entry and exit of the loop of \<open>flush\<close>.\<close>

datatype ('s, 'p) effect =
    Created bool 's 's 's
  | Listened "('s, 'p) ListenData"
  | Assigned 's
  | Resolved nat 's
  | SetState 's
  | DrainEntered
  | DrainLeft

text \<open>
  \<open>Created enablePatches base oldState newState\<close>: \<open>create(base, recipe, options)\<close> has
  returned \<open>newState\<close>, after the recipe called the mutator with a draft of \<open>base\<close> and with
  \<open>oldState\<close>; \<open>Assigned\<close> is \<open>this.state = newState\<close>.

  \<open>interface StoreContext\<close>: the fields \<open>state\<close>, \<open>hasProvider\<close>, \<open>mutatorsQueue\<close>
  and \<open>isFlushing\<close>; \<open>setState\<close> is the setter whose calls are logged, \<open>add\<close> and
  \<open>flush\<close> are the functions below. \<open>effects\<close> is the log and \<open>deferreds\<close> counts the
  \<open>pDefer()\<close> calls made so far.
\<close>

record ('s, 'p) StoreContext =
  state :: 's
  hasProvider :: bool
  mutatorsQueue :: "'s MutatorQueueItem list"
  isFlushing :: bool
  effects :: "('s, 'p) effect list"
  deferreds :: nat

text \<open>
  What the closure of \<open>createStore\<close> reads besides the context object:
  \<open>process.env.APP_ENV\<close>, the optional \<open>listen\<close> callback (given, for each event, by
  the \<open>update\<close> calls it issues and by the error it throws, if it throws) and, of the
  mutative library, the patches that \<open>create\<close> reports for a draft of \<open>base\<close> finalised
  as \<open>newState\<close>.
\<close>

record ('s, 'p) StoreEnv =
  APP_ENV :: "string option"
  listen :: "(('s, 'p) ListenData \<Rightarrow> 's mutator list list \<times> error option) option"
  patchesOf :: "'s \<Rightarrow> 's \<Rightarrow> 'p list"

type_synonym ('s, 'p) drain =
  "('s, 'p) StoreContext \<Rightarrow> (unit outcome \<times> ('s, 'p) StoreContext) option"

subsection \<open>\<open>add\<close>, \<open>flush\<close> and \<open>update\<close>\<close>

definition logged ::
  "('s, 'p) effect \<Rightarrow> ('s, 'p) StoreContext \<Rightarrow> ('s, 'p) StoreContext" where
  "logged e c = c\<lparr>effects := effects c @ [e]\<rparr>"

text \<open>
  \<open>flush\<close>, its first line and the call of its loop. The loop \<open>drain\<close> is the
  \<open>while\<close> statement together with the final \<open>this.isFlushing = false\<close>.
\<close>

definition flush ::
  "('s, 'p) drain \<Rightarrow> ('s, 'p) StoreContext
    \<Rightarrow> (unit outcome \<times> ('s, 'p) StoreContext) option" where
  "flush drain c =
     (if isFlushing c then Some (Returned (), c)
      else drain (logged DrainEntered c))"

text \<open>\<open>add(mutator, deferredPromise)\<close>: push, then \<open>this.flush()\<close>.\<close>

definition add ::
  "('s, 'p) drain \<Rightarrow> 's mutator \<Rightarrow> nat option \<Rightarrow> ('s, 'p) StoreContext
    \<Rightarrow> (unit outcome \<times> ('s, 'p) StoreContext) option" where
  "add drain m dp c =
     flush drain
       (c\<lparr>mutatorsQueue :=
            mutatorsQueue c @ [\<lparr>mutator = m, deferredPromise = dp\<rparr>]\<rparr>)"

text \<open>
  The \<open>mutators.forEach((mutator, idx) => ...)\<close> of \<open>update\<close>: \<open>len\<close> is
  \<open>mutators.length\<close>, and \<open>idx === mutators.length - 1\<close> is written \<open>Suc idx = len\<close>.
  An exception thrown by \<open>add\<close> ends the iteration.
\<close>

fun forEach_add ::
  "('s, 'p) drain \<Rightarrow> nat \<Rightarrow> nat \<Rightarrow> nat \<Rightarrow> 's mutator list \<Rightarrow> ('s, 'p) StoreContext
    \<Rightarrow> (unit outcome \<times> ('s, 'p) StoreContext) option" where
  "forEach_add drain p len idx [] c = Some (Returned (), c)"
| "forEach_add drain p len idx (m # ms) c =
     (case add drain m (if Suc idx = len then Some p else None) c of
        None \<Rightarrow> None
      | Some (Thrown e, c') \<Rightarrow> Some (Thrown e, c')
      | Some (Returned u, c') \<Rightarrow> forEach_add drain p len (Suc idx) ms c')"

text \<open>
  \<open>update(...mutators)\<close>: \<open>pDefer()\<close>, the \<open>forEach\<close>, then
  \<open>return deferredPromise.promise\<close>.
\<close>

definition update ::
  "('s, 'p) drain \<Rightarrow> 's mutator list \<Rightarrow> ('s, 'p) StoreContext
    \<Rightarrow> (nat outcome \<times> ('s, 'p) StoreContext) option" where
  "update drain mutators c =
     (let p = deferreds c;
          c0 = c\<lparr>deferreds := Suc p\<rparr>
      in case forEach_add drain p (length mutators) 0 mutators c0 of
           None \<Rightarrow> None
         | Some (Thrown e, c') \<Rightarrow> Some (Thrown e, c')
         | Some (Returned u, c') \<Rightarrow> Some (Returned p, c'))"

text \<open>The \<open>update\<close> calls issued by a running mutator or listener, one after the other.\<close>

fun updates ::
  "('s, 'p) drain \<Rightarrow> 's mutator list list \<Rightarrow> ('s, 'p) StoreContext
    \<Rightarrow> (unit outcome \<times> ('s, 'p) StoreContext) option" where
  "updates drain [] c = Some (Returned (), c)"
| "updates drain (ms # calls) c =
     (case update drain ms c of
        None \<Rightarrow> None
      | Some (Thrown e, c') \<Rightarrow> Some (Thrown e, c')
      | Some (Returned p, c') \<Rightarrow> updates drain calls c')"

text \<open>
  \<open>create(base, recipe, options)\<close> of mutative, given what the recipe did to the
  draft: an exception of the recipe passes through; otherwise the finalised draft is
  returned, with the patches when \<open>enablePatches\<close> is set.
\<close>

definition create ::
  "('s \<Rightarrow> 's \<Rightarrow> 'p list) \<Rightarrow> bool \<Rightarrow> 's \<Rightarrow> error + 's \<Rightarrow> error + ('s \<times> 'p list)" where
  "create pf enablePatches base r =
     (case r of
        Inl e \<Rightarrow> Inl e
      | Inr n \<Rightarrow> Inr (n, if enablePatches then pf base n else []))"

text \<open>
  The last three statements of the loop body: \<open>this.state = newState\<close>,
  \<open>deferredPromise?.resolve(newState)\<close>, \<open>this.setState(this.state)\<close>.
\<close>

definition commit ::
  "nat option \<Rightarrow> 's \<Rightarrow> ('s, 'p) StoreContext \<Rightarrow> ('s, 'p) StoreContext" where
  "commit dp n c =
     (let c1 = logged (Assigned n) (c\<lparr>state := n\<rparr>);
          c2 = (case dp of None \<Rightarrow> c1 | Some p \<Rightarrow> logged (Resolved p n) c1)
      in logged (SetState (state c2)) c2)"

text \<open>
  \<open>if (typeof listen === 'function') listen({ newState, oldState: this.state, patches })\<close>.
  The call is not guarded: an exception of the listener, or of an \<open>update\<close> call it makes,
  leaves \<open>flush\<close>.
\<close>

definition notify ::
  "('s, 'p) drain \<Rightarrow> ('s, 'p) StoreEnv \<Rightarrow> 's \<Rightarrow> 'p list \<Rightarrow> ('s, 'p) StoreContext
    \<Rightarrow> (unit outcome \<times> ('s, 'p) StoreContext) option" where
  "notify drain env n ps c =
     (case listen env of
        None \<Rightarrow> Some (Returned (), c)
      | Some l \<Rightarrow>
          (let d = \<lparr>newState = n, oldState = state c, patches = ps\<rparr>;
               (calls, thrown) = l d
           in case updates drain calls (logged (Listened d) c) of
                None \<Rightarrow> None
              | Some (Thrown e, c') \<Rightarrow> Some (Thrown e, c')
              | Some (Returned u, c') \<Rightarrow>
                  (case thrown of
                     None \<Rightarrow> Some (Returned (), c')
                   | Some e \<Rightarrow> Some (Thrown e, c'))))"

text \<open>
  One iteration of the loop, for the item that \<open>shift()\<close> returns. \<open>drain\<close> is the
  loop that a nested \<open>this.flush()\<close> would run.
\<close>

definition flush_step ::
  "('s, 'p) drain \<Rightarrow> ('s, 'p) StoreEnv \<Rightarrow> 's MutatorQueueItem \<Rightarrow> 's MutatorQueueItem list
    \<Rightarrow> ('s, 'p) StoreContext \<Rightarrow> (unit outcome \<times> ('s, 'p) StoreContext) option" where
  "flush_step drain env item rest c =
     (let c1 = c\<lparr>isFlushing := True\<rparr>;
          c2 = c1\<lparr>mutatorsQueue := rest\<rparr>;
          enablePatches = (APP_ENV env \<noteq> Some ''production'');
          base = state c2;
          old = state c2;
          (calls, r) = run (mutator item) base old
      in case updates drain calls c2 of
           None \<Rightarrow> None
         | Some (Thrown e, c3) \<Rightarrow> Some (Thrown e, c3)
         | Some (Returned u, c3) \<Rightarrow>
             (case create (patchesOf env) enablePatches base r of
                Inl e \<Rightarrow> Some (Thrown e, c3)
              | Inr (n, ps) \<Rightarrow>
                  (case notify drain env n ps (logged (Created enablePatches base old n) c3) of
                     None \<Rightarrow> None
                   | Some (Thrown e, c4) \<Rightarrow> Some (Thrown e, c4)
                   | Some (Returned u, c4) \<Rightarrow>
                       Some (Returned (), commit (deferredPromise item) n c4))))"

text \<open>
  The \<open>while (this.mutatorsQueue.length)\<close> loop and the \<open>this.isFlushing = false\<close>
  after it. An exception leaves the loop without that assignment.
\<close>

primrec flush_loop ::
  "nat \<Rightarrow> ('s, 'p) StoreEnv \<Rightarrow> ('s, 'p) StoreContext
    \<Rightarrow> (unit outcome \<times> ('s, 'p) StoreContext) option" where
  "flush_loop 0 env c = None"
| "flush_loop (Suc k) env c =
     (case mutatorsQueue c of
        [] \<Rightarrow> Some (Returned (), logged DrainLeft (c\<lparr>isFlushing := False\<rparr>))
      | item # rest \<Rightarrow>
          (case flush_step (flush_loop k env) env item rest c of
             None \<Rightarrow> None
           | Some (Thrown e, c') \<Rightarrow> Some (Thrown e, logged DrainLeft c')
           | Some (Returned u, c') \<Rightarrow> flush_loop k env c'))"

subsection \<open>Notions used to state the properties\<close>

text \<open>
  The queue items of one \<open>update\<close> call whose deferred promise is \<open>p\<close>: one item for each
  mutator, the last one with the promise.
\<close>

fun batch_items :: "nat \<Rightarrow> 's mutator list \<Rightarrow> 's MutatorQueueItem list" where
  "batch_items p [] = []"
| "batch_items p [m] = [\<lparr>mutator = m, deferredPromise = Some p\<rparr>]"
| "batch_items p (m # m' # ms) =
     \<lparr>mutator = m, deferredPromise = None\<rparr> # batch_items p (m' # ms)"

text \<open>An \<open>update\<close> call that only appends its items: a promise is created, nothing is applied.\<close>

definition enqueue_batch ::
  "'s mutator list \<Rightarrow> ('s, 'p) StoreContext \<Rightarrow> ('s, 'p) StoreContext" where
  "enqueue_batch ms c =
     c\<lparr>mutatorsQueue := mutatorsQueue c @ batch_items (deferreds c) ms,
       deferreds := Suc (deferreds c)\<rparr>"

fun enqueue_calls ::
  "'s mutator list list \<Rightarrow> ('s, 'p) StoreContext \<Rightarrow> ('s, 'p) StoreContext" where
  "enqueue_calls [] c = c"
| "enqueue_calls (ms # calls) c = enqueue_calls calls (enqueue_batch ms c)"

text \<open>A mutator that neither throws nor calls \<open>update\<close>: it only rewrites the draft.\<close>

definition plain :: "('s \<Rightarrow> 's \<Rightarrow> 's) \<Rightarrow> 's mutator" where
  "plain f = Mutator (\<lambda>draft old. ([], Inr (f draft old)))"

text \<open>The patches handed to the listener for a step from \<open>s\<close> to \<open>n\<close>.\<close>

definition patches_for :: "('s, 'p) StoreEnv \<Rightarrow> 's \<Rightarrow> 's \<Rightarrow> 'p list" where
  "patches_for env s n =
     (if APP_ENV env \<noteq> Some ''production'' then patchesOf env s n else [])"

text \<open>
  What the listener of the store, if any, does when it is called with \<open>d\<close>: the \<open>update\<close>
  calls it issues and the error it throws.
\<close>

definition heard ::
  "('s, 'p) StoreEnv \<Rightarrow> ('s, 'p) ListenData \<Rightarrow> 's mutator list list \<times> error option" where
  "heard env d = (case listen env of None \<Rightarrow> ([], None) | Some l \<Rightarrow> l d)"

text \<open>
  A listener call whose \<open>update\<close> calls only append their items: the context object after
  the call.
\<close>

definition notified ::
  "('s, 'p) StoreEnv \<Rightarrow> 's \<Rightarrow> 'p list \<Rightarrow> ('s, 'p) StoreContext \<Rightarrow> ('s, 'p) StoreContext" where
  "notified env n ps c =
     (case listen env of
        None \<Rightarrow> c
      | Some l \<Rightarrow>
          (let d = \<lparr>newState = n, oldState = state c, patches = ps\<rparr>
           in enqueue_calls (fst (l d)) (logged (Listened d) c)))"

text \<open>
  One iteration of the loop written without the nested loop: the \<open>update\<close> calls of the
  mutator and of the listener only append their items.
\<close>

definition step_result ::
  "('s, 'p) StoreEnv \<Rightarrow> 's MutatorQueueItem \<Rightarrow> 's MutatorQueueItem list
    \<Rightarrow> ('s, 'p) StoreContext \<Rightarrow> unit outcome \<times> ('s, 'p) StoreContext" where
  "step_result env item rest c =
     (let c2 = c\<lparr>isFlushing := True, mutatorsQueue := rest\<rparr>;
          s = state c;
          (calls, r) = run (mutator item) s s;
          c3 = enqueue_calls calls c2
      in case r of
           Inl e \<Rightarrow> (Thrown e, c3)
         | Inr n \<Rightarrow>
             (let c4 = notified env n (patches_for env s n)
                         (logged (Created (APP_ENV env \<noteq> Some ''production'') s s n) c3)
              in case snd (heard env \<lparr>newState = n, oldState = s,
                                       patches = patches_for env s n\<rparr>) of
                   Some e \<Rightarrow> (Thrown e, c4)
                 | None \<Rightarrow> (Returned (), commit (deferredPromise item) n c4)))"

text \<open>The log of one iteration that starts in state \<open>s\<close> and whose mutator returns \<open>n\<close>.\<close>

definition step_effects ::
  "('s, 'p) StoreEnv \<Rightarrow> nat option \<Rightarrow> 's \<Rightarrow> 's \<Rightarrow> ('s, 'p) effect list" where
  "step_effects env dp s n =
     [Created (APP_ENV env \<noteq> Some ''production'') s s n]
     @ (case listen env of
          None \<Rightarrow> []
        | Some l \<Rightarrow> [Listened \<lparr>newState = n, oldState = s, patches = patches_for env s n\<rparr>])
     @ [Assigned n]
     @ (case dp of None \<Rightarrow> [] | Some p \<Rightarrow> [Resolved p n])
     @ [SetState n]"


text \<open>
  The log of an iteration that starts in state \<open>s\<close> and that the listener leaves by an
  exception after the mutator has returned \<open>n\<close>: the engine call and the listener call;
  \<open>stop\<close> is \<open>None\<close> when there is no such iteration.
\<close>

definition cut_effects ::
  "('s, 'p) StoreEnv \<Rightarrow> 's \<Rightarrow> 's option \<Rightarrow> ('s, 'p) effect list" where
  "cut_effects env s stop =
     (case stop of
        None \<Rightarrow> []
      | Some n \<Rightarrow>
          [Created (APP_ENV env \<noteq> Some ''production'') s s n]
          @ (case listen env of
               None \<Rightarrow> []
             | Some l \<Rightarrow> [Listened \<lparr>newState = n, oldState = s, patches = patches_for env s n\<rparr>]))"



text \<open>The resolutions of promise \<open>p\<close> in a log, and the listener calls of a log.\<close>

fun resolutions :: "nat \<Rightarrow> ('s, 'p) effect list \<Rightarrow> 's list" where
  "resolutions p [] = []"
| "resolutions p (Resolved q v # es) = (if q = p then v # resolutions p es else resolutions p es)"
| "resolutions p (e # es) = resolutions p es"

fun listened :: "('s, 'p) effect list \<Rightarrow> ('s, 'p) ListenData list" where
  "listened [] = []"
| "listened (Listened d # es) = d # listened es"
| "listened (e # es) = listened es"











text \<open>The state after the runs \<open>ds\<close> from state \<open>s\<close>.\<close>

definition drains_state :: "'s \<Rightarrow> ((nat option \<times> 's) list \<times> 's option) list \<Rightarrow> 's" where
  "drains_state s ds = foldl (\<lambda>s run. last (s # map snd (fst run))) s ds"

text \<open>\<open>occurs_before a b es\<close>: the first \<open>a\<close> of the log \<open>es\<close> is followed, later, by a \<open>b\<close>.\<close>

fun occurs_before :: "'a \<Rightarrow> 'a \<Rightarrow> 'a list \<Rightarrow> bool" where
  "occurs_before a b [] = False"
| "occurs_before a b (e # es) = (if e = a then b \<in> set es else occurs_before a b es)"

text \<open>The queue items that the \<open>update\<close> calls \<open>calls\<close> append when \<open>p\<close> promises exist.\<close>

fun calls_items :: "nat \<Rightarrow> 's mutator list list \<Rightarrow> 's MutatorQueueItem list" where
  "calls_items p [] = []"
| "calls_items p (ms # calls) = batch_items p ms @ calls_items (Suc p) calls"

text \<open>
  \<open>update\<close> calls made one after the other from outside the loop (event handlers, say); an
  exception of one call does not prevent the later calls.
\<close>

fun later_updates ::
  "('s, 'p) drain \<Rightarrow> 's mutator list list \<Rightarrow> ('s, 'p) StoreContext
    \<Rightarrow> ('s, 'p) StoreContext option" where
  "later_updates drain [] c = Some c"
| "later_updates drain (ms # calls) c =
     (case update drain ms c of
        None \<Rightarrow> None
      | Some (r, c') \<Rightarrow> later_updates drain calls c')"



text \<open>
  \<open>pending p c\<close>: promise \<open>p\<close> has been created, no queue item carries it and the log does
  not resolve it.
\<close>

definition pending :: "nat \<Rightarrow> ('s, 'p) StoreContext \<Rightarrow> bool" where
  "pending p c =
     (p < deferreds c
      \<and> (\<forall>item \<in> set (mutatorsQueue c). deferredPromise item \<noteq> Some p)
      \<and> resolutions p (effects c) = [])"

text \<open>
  \<open>unqueued p c\<close>: promise \<open>p\<close> has been created and no queue item carries it. Such a
  promise has been resolved, or it never will be.
\<close>

definition unqueued :: "nat \<Rightarrow> ('s, 'p) StoreContext \<Rightarrow> bool" where
  "unqueued p c =
     (p < deferreds c \<and> (\<forall>item \<in> set (mutatorsQueue c). deferredPromise item \<noteq> Some p))"

text \<open>
  \<open>promises_known c\<close>: the promises carried by the queue or resolved in the log are among
  those created so far. It holds of a new context object and every call keeps it.
\<close>

fun resolved_below :: "nat \<Rightarrow> ('s, 'p) effect list \<Rightarrow> bool" where
  "resolved_below k [] = True"
| "resolved_below k (Resolved q v # es) = (q < k \<and> resolved_below k es)"
| "resolved_below k (e # es) = resolved_below k es"

definition promises_known :: "('s, 'p) StoreContext \<Rightarrow> bool" where
  "promises_known c =
     ((\<forall>item \<in> set (mutatorsQueue c).
         case deferredPromise item of None \<Rightarrow> True | Some q \<Rightarrow> q < deferreds c)
      \<and> resolved_below (deferreds c) (effects c))"

subsection \<open>The queue discipline in the words of the specification\<close>



text \<open>The listener call of a step from \<open>s\<close> to \<open>n\<close>.\<close>

definition listen_data :: "('s, 'p) StoreEnv \<Rightarrow> 's \<times> 's \<Rightarrow> ('s, 'p) ListenData" where
  "listen_data env step =
     \<lparr>newState = snd step, oldState = fst step, patches = patches_for env (fst step) (snd step)\<rparr>"

subsection \<open>\<open>createStore\<close>, \<open>useStore\<close> and \<open>connect\<close>\<close>

text \<open>
  The argument \<open>initialState\<close>: a value, or (\<open>typeof initialState === 'function'\<close>) a
  producer. A producer is given by the value that each of its evaluations returns, the
  evaluations being numbered from 0.
\<close>

datatype 's initial = Literal 's | Producer "nat \<Rightarrow> 's"

text \<open>
  The store: the closure of \<open>createStore\<close>, with the object \<open>ContextBase\<close>;
  \<open>evaluations\<close> counts the evaluations of the producer made so far.
\<close>

record ('s, 'p) Store =
  initialState :: "'s initial"
  storeEnv :: "('s, 'p) StoreEnv"
  ContextBase :: "('s, 'p) StoreContext"
  evaluations :: nat

text \<open>
  \<open>stateReader\<close>: the producer itself, or \<open>() => initialState\<close>. It takes and returns
  the number of evaluations of the producer.
\<close>

definition stateReader :: "'s initial \<Rightarrow> nat \<Rightarrow> 's \<times> nat" where
  "stateReader init k = (case init of Producer f \<Rightarrow> (f k, Suc k) | Literal v \<Rightarrow> (v, k))"

text \<open>
  \<open>createStore(initialState, listen)\<close>, up to the object \<open>ContextBase\<close>; \<open>env\<close> holds
  \<open>listen\<close> and what the closure reads of its surroundings.
\<close>

definition createStore :: "('s, 'p) StoreEnv \<Rightarrow> 's initial \<Rightarrow> ('s, 'p) Store" where
  "createStore env init =
     (let (s, k) = stateReader init 0
      in \<lparr>initialState = init, storeEnv = env,
          ContextBase =
            \<lparr>state = s, hasProvider = False, mutatorsQueue = [], isFlushing = False,
             effects = [], deferreds = 0\<rparr>,
          evaluations = k\<rparr>)"

text \<open>
  \<open>useContext(Context)\<close> of React: the value of the nearest provider, or the default value
  of the context (\<open>{...ContextBase}\<close>) when there is none.
\<close>

definition useContext ::
  "('s, 'p) StoreContext option \<Rightarrow> ('s, 'p) StoreContext \<Rightarrow> ('s, 'p) StoreContext" where
  "useContext provider dflt = (case provider of None \<Rightarrow> dflt | Some v \<Rightarrow> v)"

text \<open>
  \<open>useStore()\<close>, for the value of the provider above the calling component, if any. The
  result \<open>{ state, update }\<close> is the state and the context object that the closure
  \<open>update\<close> is bound to.
\<close>

definition useStore ::
  "('s, 'p) Store \<Rightarrow> ('s, 'p) StoreContext option \<Rightarrow> error + ('s \<times> ('s, 'p) StoreContext)" where
  "useStore st provider =
     (let context = useContext provider (ContextBase st)
      in if \<not> hasProvider context
         then Inl (Error (''Component must be wrapped with '' @ [CHR 0x22] @ ''connect(...)''
                          @ [CHR 0x22]))
         else Inr (state context, context))"

text \<open>
  \<open>useState(initializer)\<close> of React: \<open>cell\<close> is the state that React keeps for the
  component, \<open>None\<close> at its first render, where React calls the initializer.
\<close>

definition useState :: "'s option \<Rightarrow> (nat \<Rightarrow> 's \<times> nat) \<Rightarrow> nat \<Rightarrow> 's \<times> nat" where
  "useState cell initializer k = (case cell of None \<Rightarrow> initializer k | Some s \<Rightarrow> (s, k))"

text \<open>
  One render of the component that \<open>connect(Cmp)\<close> returns: \<open>useState(stateReader)\<close>, then
  the provider value \<open>{...ContextBase, state, setState, hasProvider: true}\<close>. The copy has
  the \<open>isFlushing\<close> of \<open>ContextBase\<close>, which no call assigns (\<open>this\<close> is a provider value in
  \<open>add\<close> and \<open>flush\<close>, never \<open>ContextBase\<close>), and its \<open>mutatorsQueue\<close> is the array of
  \<open>ContextBase\<close>: \<open>prev\<close> is a context object as the calls made so far have left it
  (\<open>ContextBase\<close> itself before any call) and gives the content of that array, the log and
  the count of promises.
\<close>

definition connect_render ::
  "('s, 'p) Store \<Rightarrow> 's option \<Rightarrow> ('s, 'p) StoreContext
    \<Rightarrow> ('s, 'p) StoreContext \<times> ('s, 'p) Store" where
  "connect_render st cell prev =
     (let (s, k) = useState cell (stateReader (initialState st)) (evaluations st)
      in ((ContextBase st)\<lparr>state := s, hasProvider := True,
            mutatorsQueue := mutatorsQueue prev, effects := effects prev,
            deferreds := deferreds prev\<rparr>,
          st\<lparr>evaluations := k\<rparr>))"


text \<open>
  The state that React holds for the connected component after the setter calls of a log,
  when it held \<open>s\<close> before: the argument of the last call.
\<close>

fun react_state :: "'s \<Rightarrow> ('s, 'p) effect list \<Rightarrow> 's" where
  "react_state s [] = s"
| "react_state s (SetState n # es) = react_state n es"
| "react_state s (e # es) = react_state s es"

text \<open>
  What may follow a call: \<open>update\<close> calls through the context object at hand, and renders of
  the connected component, after which the calls go through the new provider value.
\<close>

datatype 's activity = Update "'s mutator list" | Render 's

fun later_activity ::
  "('s, 'p) Store \<Rightarrow> ('s, 'p) drain \<Rightarrow> 's activity list \<Rightarrow> ('s, 'p) StoreContext
    \<Rightarrow> ('s, 'p) StoreContext option" where
  "later_activity st drain [] c = Some c"
| "later_activity st drain (Update ms # acts) c =
     (case update drain ms c of
        None \<Rightarrow> None
      | Some (r, c') \<Rightarrow> later_activity st drain acts c')"
| "later_activity st drain (Render s # acts) c =
     later_activity st drain acts (fst (connect_render st (Some s) c))"

subsection \<open>Concrete stores\<close>

text \<open>
  The state \<open>{ count: number }\<close> of the tests, and the patches of mutative
  (\<open>{ op, path, value }\<close>) for it.
\<close>

record counter =
  count :: int

datatype patch = Patch string "string list" int

text \<open>
  A store with a listener that only observes, in an environment without \<open>APP_ENV\<close>; the
  engine reports one \<open>replace\<close> patch when the count has changed.
\<close>

definition env_watch :: "(counter, patch) StoreEnv" where
  "env_watch =
     \<lparr>APP_ENV = None, listen = Some (\<lambda>d. ([], None)),
      patchesOf = (\<lambda>a b. if a = b then [] else [Patch ''replace'' [''count''] (count b)])\<rparr>"

definition env_production :: "(counter, patch) StoreEnv" where
  "env_production = env_watch\<lparr>APP_ENV := Some ''production''\<rparr>"

text \<open>The same store with a listener that throws at every call.\<close>

definition env_throwing :: "(counter, patch) StoreEnv" where
  "env_throwing = env_watch\<lparr>listen := Some (\<lambda>d. ([], Some (Error ''listener'')))\<rparr>"

text \<open>
  The context object that \<open>connect\<close> provides at its first render in a store created for
  the count \<open>n\<close>, before any call.
\<close>

definition provided :: "int \<Rightarrow> (counter, patch) StoreContext" where
  "provided n =
     \<lparr>state = \<lparr>count = n\<rparr>, hasProvider = True, mutatorsQueue = [], isFlushing = False,
      effects = [], deferreds = 0\<rparr>"

text \<open>\<open>draft.count += k\<close>, \<open>draft.count *= 2\<close> and \<open>draft.count = oldState.count + 1\<close>.\<close>

definition bump :: "int \<Rightarrow> counter \<Rightarrow> counter \<Rightarrow> counter" where
  "bump k draft old = draft\<lparr>count := count draft + k\<rparr>"

definition twice :: "counter \<Rightarrow> counter \<Rightarrow> counter" where
  "twice draft old = draft\<lparr>count := count draft * 2\<rparr>"


text \<open>A mutator that increments the count and calls \<open>update\<close> with \<open>twice\<close> while it runs.\<close>

definition increment_and_update :: "counter mutator" where
  "increment_and_update = Mutator (\<lambda>draft old. ([[plain twice]], Inr (bump 1 draft old)))"

text \<open>A producer whose evaluations return the counts 0, 1, 2 and so on.\<close>

definition numbered :: "nat \<Rightarrow> counter" where
  "numbered k = \<lparr>count = int k\<rparr>"

text \<open>The store of the tests: \<open>createStore({ count: 0 }, listener)\<close>.\<close>

definition store0 :: "(counter, patch) Store" where
  "store0 = createStore env_watch (Literal \<lparr>count = 0\<rparr>)"

text \<open>A mutator that throws.\<close>

definition failing :: "counter mutator" where
  "failing = Mutator (\<lambda>draft old. ([], Inl (Error ''boom'')))"

text \<open>
  Three context objects of \<open>store0\<close>: the first provider value after
  \<open>update(bump 1, failing)\<close>, the same after a later \<open>update(bump 10)\<close>, and the provider
  value of the render that the setter call of the first step brings about.
\<close>

definition after_failure :: "(counter, patch) StoreContext" where
  "after_failure =
     \<lparr>state = \<lparr>count = 1\<rparr>, hasProvider = True, mutatorsQueue = [], isFlushing = True,
      effects =
        [DrainEntered,
         Created True \<lparr>count = 0\<rparr> \<lparr>count = 0\<rparr> \<lparr>count = 1\<rparr>,
         Listened \<lparr>newState = \<lparr>count = 1\<rparr>, oldState = \<lparr>count = 0\<rparr>,
                   patches = [Patch ''replace'' [''count''] 1]\<rparr>,
         Assigned \<lparr>count = 1\<rparr>, SetState \<lparr>count = 1\<rparr>,
         DrainLeft,
         DrainEntered, DrainLeft],
      deferreds = 1\<rparr>"

definition after_blocked_update :: "(counter, patch) StoreContext" where
  "after_blocked_update =
     after_failure\<lparr>mutatorsQueue := [\<lparr>mutator = plain (bump 10), deferredPromise = Some 1\<rparr>],
                   deferreds := 2\<rparr>"

definition next_provided :: "(counter, patch) StoreContext" where
  "next_provided = after_blocked_update\<lparr>isFlushing := False\<rparr>"






definition forth_and_back :: "counter \<Rightarrow> counter \<Rightarrow> counter" where
  "forth_and_back draft old = bump (- 1) (bump 1 draft old) old"

section \<open>Properties\<close>

subsection \<open>Calls made while the loop runs\<close>

lemma flush_busy: "isFlushing c \<Longrightarrow> flush d c = Some (Returned (), c)"
  by (simp add: flush_def)

lemma add_busy:
  "isFlushing c \<Longrightarrow>
   add d m dp c =
     Some (Returned (), c\<lparr>mutatorsQueue := mutatorsQueue c @ [\<lparr>mutator = m, deferredPromise = dp\<rparr>]\<rparr>)"
  by (simp add: add_def flush_def)

lemma batch_items_Cons:
  "batch_items p (m # ms) =
     \<lparr>mutator = m, deferredPromise = (if ms = [] then Some p else None)\<rparr> # batch_items p ms"
  by (cases ms) simp_all

lemma forEach_add_busy:
  "isFlushing c \<Longrightarrow> len = idx + length ms \<Longrightarrow>
   forEach_add d p len idx ms c =
     Some (Returned (), c\<lparr>mutatorsQueue := mutatorsQueue c @ batch_items p ms\<rparr>)"
proof (induction ms arbitrary: idx c)
  case Nil
  then show ?case by simp
next
  case (Cons m ms)
  let ?dp = "if ms = [] then Some p else None"
  let ?c1 = "c\<lparr>mutatorsQueue := mutatorsQueue c @ [\<lparr>mutator = m, deferredPromise = ?dp\<rparr>]\<rparr>"
  from Cons.prems have last: "(Suc idx = len) = (ms = [])" by auto
  have step: "add d m (if Suc idx = len then Some p else None) c = Some (Returned (), ?c1)"
    using Cons.prems(1) by (simp only: last add_busy)
  have busy1: "isFlushing ?c1" using Cons.prems(1) by simp
  have len1: "len = Suc idx + length ms" using Cons.prems(2) by simp
  have rest: "forEach_add d p len (Suc idx) ms ?c1 =
      Some (Returned (), ?c1\<lparr>mutatorsQueue := mutatorsQueue ?c1 @ batch_items p ms\<rparr>)"
    by (rule Cons.IH [OF busy1 len1])
  show ?case
    by (simp only: forEach_add.simps step rest option.case prod.case outcome.case batch_items_Cons)
       simp
qed

lemma update_busy:
  "isFlushing c \<Longrightarrow> update d ms c = Some (Returned (deferreds c), enqueue_batch ms c)"
  by (simp add: update_def Let_def forEach_add_busy enqueue_batch_def)

lemma enqueue_batch_fields [simp]:
  "isFlushing (enqueue_batch ms c) = isFlushing c"
  "state (enqueue_batch ms c) = state c"
  "effects (enqueue_batch ms c) = effects c"
  "hasProvider (enqueue_batch ms c) = hasProvider c"
  by (simp_all add: enqueue_batch_def)

lemma enqueue_calls_fields [simp]:
  "isFlushing (enqueue_calls calls c) = isFlushing c"
  "state (enqueue_calls calls c) = state c"
  "effects (enqueue_calls calls c) = effects c"
  "hasProvider (enqueue_calls calls c) = hasProvider c"
  by (induction calls arbitrary: c; simp)+

lemma updates_busy:
  "isFlushing c \<Longrightarrow> updates d calls c = Some (Returned (), enqueue_calls calls c)"
  by (induction calls arbitrary: c) (simp_all add: update_busy)

subsection \<open>One iteration, and the shape of the log of the loop\<close>

lemma logged_fields [simp]:
  "isFlushing (logged e c) = isFlushing c"
  "state (logged e c) = state c"
  "effects (logged e c) = effects c @ [e]"
  "hasProvider (logged e c) = hasProvider c"
  "mutatorsQueue (logged e c) = mutatorsQueue c"
  "deferreds (logged e c) = deferreds c"
  by (simp_all add: logged_def)

lemma notify_busy:
  "isFlushing c \<Longrightarrow>
   notify d env n ps c =
     Some (case snd (heard env \<lparr>newState = n, oldState = state c, patches = ps\<rparr>) of
             None \<Rightarrow> Returned ()
           | Some e \<Rightarrow> Thrown e,
           notified env n ps c)"
  by (simp add: notify_def notified_def heard_def Let_def updates_busy
      split: option.split prod.split)

lemma notified_fields [simp]:
  "isFlushing (notified env n ps c) = isFlushing c"
  "state (notified env n ps c) = state c"
  "hasProvider (notified env n ps c) = hasProvider c"
  by (simp_all add: notified_def Let_def split: option.split)

lemma flush_step_flat:
  "flush_step d env item rest c = Some (step_result env item rest c)"
  by (simp add: flush_step_def step_result_def Let_def updates_busy notify_busy create_def patches_for_def
      split: prod.split sum.split option.split)

lemma flush_loop_Suc:
  "flush_loop (Suc k) env c =
     (case mutatorsQueue c of
        [] \<Rightarrow> Some (Returned (), logged DrainLeft (c\<lparr>isFlushing := False\<rparr>))
      | item # rest \<Rightarrow>
          (case step_result env item rest c of
             (Thrown e, c') \<Rightarrow> Some (Thrown e, logged DrainLeft c')
           | (Returned u, c') \<Rightarrow> flush_loop k env c'))"
  by (simp add: flush_step_flat split: list.split prod.split outcome.split)

declare flush_loop.simps(2) [simp del]

lemma step_result_thrown:
  "run (mutator item) (state c) (state c) = (calls, Inl e) \<Longrightarrow>
   step_result env item rest c =
     (Thrown e, enqueue_calls calls (c\<lparr>isFlushing := True, mutatorsQueue := rest\<rparr>))"
  by (simp add: step_result_def Let_def)

lemma commit_fields [simp]:
  "isFlushing (commit dp n c) = isFlushing c"
  "state (commit dp n c) = n"
  "hasProvider (commit dp n c) = hasProvider c"
  "mutatorsQueue (commit dp n c) = mutatorsQueue c"
  "deferreds (commit dp n c) = deferreds c"
  "effects (commit dp n c) =
     effects c @ [Assigned n] @ (case dp of None \<Rightarrow> [] | Some p \<Rightarrow> [Resolved p n]) @ [SetState n]"
  by (simp_all add: commit_def Let_def split: option.split)

lemma notified_effects [simp]:
  "effects (notified env n ps c) =
     effects c @ (case listen env of None \<Rightarrow> []
                  | Some l \<Rightarrow> [Listened \<lparr>newState = n, oldState = state c, patches = ps\<rparr>])"
  by (simp add: notified_def Let_def split: option.split)

lemma step_result_returned:
  assumes "run (mutator item) (state c) (state c) = (calls, Inr n)"
    and "snd (heard env \<lparr>newState = n, oldState = state c,
                         patches = patches_for env (state c) n\<rparr>) = None"
  shows "fst (step_result env item rest c) = Returned ()"
    and "state (snd (step_result env item rest c)) = n"
    and "isFlushing (snd (step_result env item rest c))"
    and "hasProvider (snd (step_result env item rest c)) = hasProvider c"
    and "effects (snd (step_result env item rest c)) =
           effects c @ step_effects env (deferredPromise item) (state c) n"
  using assms by (simp_all add: step_result_def Let_def step_effects_def split: option.split)

lemma step_result_cut:
  assumes "run (mutator item) (state c) (state c) = (calls, Inr n)"
    and "snd (heard env \<lparr>newState = n, oldState = state c,
                         patches = patches_for env (state c) n\<rparr>) = Some e"
  shows "fst (step_result env item rest c) = Thrown e"
    and "state (snd (step_result env item rest c)) = state c"
    and "isFlushing (snd (step_result env item rest c))"
    and "hasProvider (snd (step_result env item rest c)) = hasProvider c"
    and "effects (snd (step_result env item rest c)) =
           effects c @ cut_effects env (state c) (Some n)"
  using assms by (simp_all add: step_result_def Let_def cut_effects_def split: option.split)



lemma flush_loop_idle:
  "flush_loop k env c = Some (Returned u, c') \<Longrightarrow> mutatorsQueue c' = [] \<and> \<not> isFlushing c'"
proof (induction k arbitrary: c)
  case 0
  then show ?case by simp
next
  case (Suc k)
  show ?case
  proof (cases "mutatorsQueue c")
    case Nil
    with Suc.prems show ?thesis by (auto simp: flush_loop_Suc)
  next
    case (Cons item rest)
    with Suc.prems Suc.IH show ?thesis
      by (auto simp: flush_loop_Suc split: prod.splits outcome.splits)
  qed
qed

subsection \<open>Plain mutators and a listener that only observes\<close>

lemma run_plain [simp]: "run (plain f) b old = ([], Inr (f b old))"
  by (simp add: plain_def)













subsection \<open>The log of a call of \<open>update\<close>\<close>

lemma drains_state_simps [simp]:
  "drains_state s [] = s"
  "drains_state s ((steps, stop) # ds) = drains_state (last (s # map snd steps)) ds"
  "drains_state s (ds1 @ ds2) = drains_state (drains_state s ds1) ds2"
  by (simp_all add: drains_state_def del: last.simps)




























lemma listened_step_effects:
  "listen env = Some l \<Longrightarrow> listened (step_effects env dp s n) = [listen_data env (s, n)]"
  by (cases dp) (simp_all add: step_effects_def listen_data_def)




subsection \<open>Exceptions, later calls and pending promises\<close>

lemma enqueue_calls_queue:
  "mutatorsQueue (enqueue_calls calls c) = mutatorsQueue c @ calls_items (deferreds c) calls"
  by (induction calls arbitrary: c) (simp_all add: enqueue_batch_def)

lemma enqueue_calls_deferreds:
  "deferreds (enqueue_calls calls c) = deferreds c + length calls"
  by (induction calls arbitrary: c) (simp_all add: enqueue_batch_def)

lemma later_updates_busy:
  "isFlushing c \<Longrightarrow> later_updates d calls c = Some (enqueue_calls calls c)"
  by (induction calls arbitrary: c) (simp_all add: update_busy)

lemma flush_loop_thrown:
  assumes "run (mutator item) (state c) (state c) = (calls, Inl e)"
    and "mutatorsQueue c = item # rest"
  shows "flush_loop (Suc k) env c =
     Some (Thrown e,
       logged DrainLeft (enqueue_calls calls (c\<lparr>isFlushing := True, mutatorsQueue := rest\<rparr>)))"
  using assms by (simp add: flush_loop_Suc step_result_thrown)

lemma resolutions_append:
  "resolutions p (es @ es') = resolutions p es @ resolutions p es'"
  by (induction p es rule: resolutions.induct) simp_all

lemma resolved_below_resolutions:
  "resolved_below k es \<Longrightarrow> k \<le> p \<Longrightarrow> resolutions p es = []"
  by (induction k es rule: resolved_below.induct) auto

lemma batch_items_promise:
  "item \<in> set (batch_items q ms) \<Longrightarrow>
   deferredPromise item = None \<or> deferredPromise item = Some q"
  by (induction q ms rule: batch_items.induct) auto

lemma pending_start:
  "promises_known c \<Longrightarrow> pending (deferreds c) (c\<lparr>deferreds := Suc (deferreds c)\<rparr>)"
  by (auto simp: promises_known_def pending_def resolved_below_resolutions split: option.splits)

lemma pending_enqueue_batch: "pending p c \<Longrightarrow> pending p (enqueue_batch ms c)"
  by (auto simp: pending_def enqueue_batch_def dest: batch_items_promise)

lemma pending_enqueue_calls: "pending p c \<Longrightarrow> pending p (enqueue_calls calls c)"
  by (induction calls arbitrary: c) (simp_all add: pending_enqueue_batch)

lemma pending_logged:
  "pending p c \<Longrightarrow> resolutions p [e] = [] \<Longrightarrow> pending p (logged e c)"
  by (simp add: pending_def resolutions_append)

lemma pending_notified: "pending p c \<Longrightarrow> pending p (notified env n ps c)"
  by (simp add: notified_def Let_def pending_enqueue_calls pending_logged split: option.split)

lemma pending_commit: "pending p c \<Longrightarrow> dp \<noteq> Some p \<Longrightarrow> pending p (commit dp n c)"
  by (cases dp) (simp_all add: pending_def resolutions_append)

lemma pending_shift:
  "pending p c \<Longrightarrow> mutatorsQueue c = item # rest \<Longrightarrow>
   pending p (c\<lparr>isFlushing := True, mutatorsQueue := rest\<rparr>) \<and> deferredPromise item \<noteq> Some p"
  by (simp add: pending_def)

lemma pending_step_result:
  assumes "pending p c" and "mutatorsQueue c = item # rest"
  shows "pending p (snd (step_result env item rest c))"
proof -
  from pending_shift [OF assms] have
    s: "pending p (c\<lparr>isFlushing := True, mutatorsQueue := rest\<rparr>)"
    and d: "deferredPromise item \<noteq> Some p" by simp_all
  show ?thesis
    by (auto simp: step_result_def Let_def split: prod.split sum.split option.split
        intro!: pending_commit pending_notified pending_logged pending_enqueue_calls s d)
qed

lemma pending_flush_loop:
  "flush_loop k env c = Some (r, c') \<Longrightarrow> pending p c \<Longrightarrow> pending p c'"
proof (induction k arbitrary: c)
  case 0
  then show ?case by simp
next
  case (Suc k)
  show ?case
  proof (cases "mutatorsQueue c")
    case Nil
    with Suc.prems have "c' = logged DrainLeft (c\<lparr>isFlushing := False\<rparr>)"
      by (simp add: flush_loop_Suc)
    with Suc.prems(2) show ?thesis by (simp add: pending_def resolutions_append)
  next
    case (Cons item rest)
    obtain r1 c1 where sr: "step_result env item rest c = (r1, c1)"
      by (cases "step_result env item rest c")
    from pending_step_result [OF Suc.prems(2) Cons, of env] sr have p1: "pending p c1" by simp
    show ?thesis
    proof (cases r1)
      case (Returned u)
      with Suc.prems(1) Cons sr have "flush_loop k env c1 = Some (r, c')"
        by (simp add: flush_loop_Suc)
      from Suc.IH [OF this p1] show ?thesis .
    next
      case (Thrown e)
      with Suc.prems(1) Cons sr have "c' = logged DrainLeft c1"
        by (simp add: flush_loop_Suc)
      with p1 show ?thesis by (simp add: pending_logged)
    qed
  qed
qed

lemma pending_add:
  assumes "add (flush_loop k env) m dp c = Some (r, c')" and "pending p c" and "dp \<noteq> Some p"
  shows "pending p c'"
proof -
  let ?c1 = "c\<lparr>mutatorsQueue := mutatorsQueue c @ [\<lparr>mutator = m, deferredPromise = dp\<rparr>]\<rparr>"
  from assms(2,3) have p1: "pending p ?c1" by (simp add: pending_def)
  show ?thesis
  proof (cases "isFlushing c")
    case True
    with assms(1) have "c' = ?c1" by (simp add: add_busy)
    with p1 show ?thesis by simp
  next
    case False
    with assms(1) have "flush_loop k env (logged DrainEntered ?c1) = Some (r, c')"
      by (simp add: add_def flush_def)
    from pending_flush_loop [OF this] p1 show ?thesis by (simp add: pending_logged)
  qed
qed

lemma pending_forEach_add:
  "forEach_add (flush_loop k env) q len idx ms c = Some (r, c') \<Longrightarrow> pending p c \<Longrightarrow> q \<noteq> p
   \<Longrightarrow> pending p c'"
proof (induction ms arbitrary: idx c)
  case Nil
  then show ?case by simp
next
  case (Cons m ms)
  let ?dp = "if Suc idx = len then Some q else None"
  from Cons.prems(1) obtain r1 c1 where a: "add (flush_loop k env) m ?dp c = Some (r1, c1)"
    by (auto split: option.splits)
  from Cons.prems(3) have "?dp \<noteq> Some p" by simp
  from pending_add [OF a Cons.prems(2) this] have p1: "pending p c1" .
  show ?case
  proof (cases r1)
    case (Thrown e)
    with Cons.prems(1) a have "c' = c1" by simp
    with p1 show ?thesis by simp
  next
    case (Returned u)
    with Cons.prems(1) a have "forEach_add (flush_loop k env) q len (Suc idx) ms c1 = Some (r, c')"
      by simp
    from Cons.IH [OF this p1 Cons.prems(3)] show ?thesis .
  qed
qed

lemma pending_update:
  assumes "update (flush_loop k env) ms c = Some (r, c')" and "pending p c"
  shows "pending p c'"
proof -
  let ?c0 = "c\<lparr>deferreds := Suc (deferreds c)\<rparr>"
  from assms(1) obtain r0 where
    f: "forEach_add (flush_loop k env) (deferreds c) (length ms) 0 ms ?c0 = Some (r0, c')"
    by (auto simp: update_def Let_def split: option.splits outcome.splits)
  from assms(2) have "pending p ?c0" and "deferreds c \<noteq> p" by (auto simp: pending_def)
  with pending_forEach_add [OF f] show ?thesis by blast
qed

lemma pending_later_updates:
  "later_updates (flush_loop k env) calls c = Some c' \<Longrightarrow> pending p c \<Longrightarrow> pending p c'"
proof (induction calls arbitrary: c)
  case Nil
  then show ?case by simp
next
  case (Cons ms calls)
  from Cons.prems(1) obtain r1 c1 where u: "update (flush_loop k env) ms c = Some (r1, c1)"
    by (auto split: option.splits)
  with Cons.prems(1) have "later_updates (flush_loop k env) calls c1 = Some c'" by simp
  from Cons.IH [OF this pending_update [OF u Cons.prems(2)]] show ?case .
qed

text \<open>Every call keeps \<open>promises_known\<close>, which holds of the object that \<open>connect\<close> provides.\<close>

lemma resolved_below_append:
  "resolved_below k (es @ es') = (resolved_below k es \<and> resolved_below k es')"
  by (induction k es rule: resolved_below.induct) auto

lemma resolved_below_mono: "resolved_below k es \<Longrightarrow> k \<le> k' \<Longrightarrow> resolved_below k' es"
  by (induction k es rule: resolved_below.induct) auto

lemma known_enqueue_batch: "promises_known c \<Longrightarrow> promises_known (enqueue_batch ms c)"
  by (fastforce simp: promises_known_def enqueue_batch_def
      dest: batch_items_promise intro: resolved_below_mono split: option.splits)

lemma known_enqueue_calls: "promises_known c \<Longrightarrow> promises_known (enqueue_calls calls c)"
  by (induction calls arbitrary: c) (simp_all add: known_enqueue_batch)

lemma known_logged:
  "promises_known c \<Longrightarrow> resolved_below (deferreds c) [e] \<Longrightarrow> promises_known (logged e c)"
  by (auto simp: promises_known_def resolved_below_append split: option.splits)

lemma known_notified: "promises_known c \<Longrightarrow> promises_known (notified env n ps c)"
  by (simp add: notified_def Let_def known_enqueue_calls known_logged split: option.split)

lemma known_commit:
  "promises_known c \<Longrightarrow> (case dp of None \<Rightarrow> True | Some q \<Rightarrow> q < deferreds c)
   \<Longrightarrow> promises_known (commit dp n c)"
  by (cases dp) (auto simp: promises_known_def resolved_below_append split: option.splits)

lemma enqueue_calls_deferreds_le: "deferreds c \<le> deferreds (enqueue_calls calls c)"
  by (simp add: enqueue_calls_deferreds)

lemma known_step_result:
  assumes "promises_known c" and "mutatorsQueue c = item # rest"
  shows "promises_known (snd (step_result env item rest c))"
proof -
  from assms have s: "promises_known (c\<lparr>isFlushing := True, mutatorsQueue := rest\<rparr>)"
    and d: "case deferredPromise item of None \<Rightarrow> True | Some q \<Rightarrow> q < deferreds c"
    by (auto simp: promises_known_def split: option.splits)
  have d': "case deferredPromise item of None \<Rightarrow> True
            | Some q \<Rightarrow> q < deferreds (notified env n ps (logged e (enqueue_calls calls
                  (c\<lparr>isFlushing := True, mutatorsQueue := rest\<rparr>))))" for n ps e calls
    using d by (cases "deferredPromise item")
      (auto simp: notified_def Let_def enqueue_calls_deferreds split: option.split)
  show ?thesis
    by (auto simp: step_result_def Let_def split: prod.split sum.split option.split
        intro!: known_commit known_notified known_logged known_enqueue_calls s d')
qed

lemma known_flush_loop:
  "flush_loop k env c = Some (r, c') \<Longrightarrow> promises_known c \<Longrightarrow> promises_known c'"
proof (induction k arbitrary: c)
  case 0
  then show ?case by simp
next
  case (Suc k)
  show ?case
  proof (cases "mutatorsQueue c")
    case Nil
    with Suc.prems have "c' = logged DrainLeft (c\<lparr>isFlushing := False\<rparr>)"
      by (simp add: flush_loop_Suc)
    with Suc.prems(2) show ?thesis
      by (auto simp: promises_known_def resolved_below_append split: option.splits)
  next
    case (Cons item rest)
    obtain r1 c1 where sr: "step_result env item rest c = (r1, c1)"
      by (cases "step_result env item rest c")
    from known_step_result [OF Suc.prems(2) Cons, of env] sr have p1: "promises_known c1" by simp
    show ?thesis
    proof (cases r1)
      case (Returned u)
      with Suc.prems(1) Cons sr have "flush_loop k env c1 = Some (r, c')"
        by (simp add: flush_loop_Suc)
      from Suc.IH [OF this p1] show ?thesis .
    next
      case (Thrown e)
      with Suc.prems(1) Cons sr have "c' = logged DrainLeft c1"
        by (simp add: flush_loop_Suc)
      with p1 show ?thesis by (simp add: known_logged)
    qed
  qed
qed

lemma flush_loop_deferreds:
  "flush_loop k env c = Some (r, c') \<Longrightarrow> deferreds c \<le> deferreds c'"
proof (induction k arbitrary: c)
  case 0
  then show ?case by simp
next
  case (Suc k)
  show ?case
  proof (cases "mutatorsQueue c")
    case Nil
    with Suc.prems show ?thesis by (auto simp: flush_loop_Suc)
  next
    case (Cons item rest)
    obtain r1 c1 where sr: "step_result env item rest c = (r1, c1)"
      by (cases "step_result env item rest c")
    have d1: "deferreds c \<le> deferreds c1"
      using sr
      by (auto simp: step_result_def Let_def notified_def enqueue_calls_deferreds
          split: prod.splits sum.splits option.splits)
    show ?thesis
    proof (cases r1)
      case (Returned u)
      with Suc.prems(1) Cons sr have "flush_loop k env c1 = Some (r, c')"
        by (simp add: flush_loop_Suc)
      from Suc.IH [OF this] d1 show ?thesis by simp
    next
      case (Thrown e)
      with Suc.prems(1) Cons sr have "c' = logged DrainLeft c1"
        by (simp add: flush_loop_Suc)
      with d1 show ?thesis by simp
    qed
  qed
qed

lemma known_add:
  assumes "add (flush_loop k env) m dp c = Some (r, c')" and "promises_known c"
    and "case dp of None \<Rightarrow> True | Some q \<Rightarrow> q < deferreds c"
  shows "promises_known c' \<and> deferreds c \<le> deferreds c'"
proof -
  let ?c1 = "c\<lparr>mutatorsQueue := mutatorsQueue c @ [\<lparr>mutator = m, deferredPromise = dp\<rparr>]\<rparr>"
  from assms(2,3) have p1: "promises_known ?c1"
    by (auto simp: promises_known_def split: option.splits)
  show ?thesis
  proof (cases "isFlushing c")
    case True
    with assms(1) have "c' = ?c1" by (simp add: add_busy)
    with p1 show ?thesis by simp
  next
    case False
    with assms(1) have l: "flush_loop k env (logged DrainEntered ?c1) = Some (r, c')"
      by (simp add: add_def flush_def)
    from known_flush_loop [OF l] flush_loop_deferreds [OF l] p1 show ?thesis
      by (simp add: known_logged)
  qed
qed

lemma known_forEach_add:
  "forEach_add (flush_loop k env) q len idx ms c = Some (r, c') \<Longrightarrow> promises_known c
   \<Longrightarrow> q < deferreds c \<Longrightarrow> promises_known c'"
proof (induction ms arbitrary: idx c)
  case Nil
  then show ?case by simp
next
  case (Cons m ms)
  let ?dp = "if Suc idx = len then Some q else None"
  from Cons.prems(1) obtain r1 c1 where a: "add (flush_loop k env) m ?dp c = Some (r1, c1)"
    by (auto split: option.splits)
  from Cons.prems(3) have "case ?dp of None \<Rightarrow> True | Some q \<Rightarrow> q < deferreds c" by simp
  from known_add [OF a Cons.prems(2) this] have p1: "promises_known c1" "deferreds c \<le> deferreds c1"
    by simp_all
  show ?case
  proof (cases r1)
    case (Thrown e)
    with Cons.prems(1) a have "c' = c1" by simp
    with p1 show ?thesis by simp
  next
    case (Returned u)
    with Cons.prems(1) a have f: "forEach_add (flush_loop k env) q len (Suc idx) ms c1 = Some (r, c')"
      by simp
    from p1(2) Cons.prems(3) have "q < deferreds c1" by simp
    from Cons.IH [OF f p1(1) this] show ?thesis .
  qed
qed

lemma known_update:
  assumes "update (flush_loop k env) ms c = Some (r, c')" and "promises_known c"
  shows "promises_known c'"
proof -
  let ?c0 = "c\<lparr>deferreds := Suc (deferreds c)\<rparr>"
  from assms(1) obtain r0 where
    f: "forEach_add (flush_loop k env) (deferreds c) (length ms) 0 ms ?c0 = Some (r0, c')"
    by (auto simp: update_def Let_def split: option.splits outcome.splits)
  from assms(2) have "promises_known ?c0"
    by (fastforce simp: promises_known_def intro: resolved_below_mono split: option.splits)
  with known_forEach_add [OF f] show ?thesis by simp
qed

lemma known_new:
  "promises_known (fst (connect_render (createStore env init) cell (ContextBase (createStore env init))))"
  by (simp add: promises_known_def connect_render_def createStore_def Let_def split: prod.split)

text \<open>A call that returns leaves a context object at rest as it found it: at rest.\<close>

lemma add_keeps_rest:
  assumes "add (flush_loop k env) m dp c = Some (Returned u, c')" and "\<not> isFlushing c"
  shows "mutatorsQueue c' = [] \<and> \<not> isFlushing c'"
proof -
  from assms have "flush_loop k env (logged DrainEntered
      (c\<lparr>mutatorsQueue := mutatorsQueue c @ [\<lparr>mutator = m, deferredPromise = dp\<rparr>]\<rparr>))
      = Some (Returned u, c')"
    by (simp add: add_def flush_def)
  then show ?thesis by (rule flush_loop_idle)
qed

lemma forEach_add_keeps_rest:
  "forEach_add (flush_loop k env) q len idx ms c = Some (Returned u, c')
   \<Longrightarrow> \<not> isFlushing c \<Longrightarrow> mutatorsQueue c = []
   \<Longrightarrow> mutatorsQueue c' = [] \<and> \<not> isFlushing c'"
proof (induction ms arbitrary: idx c)
  case Nil
  then show ?case by simp
next
  case (Cons m ms)
  let ?dp = "if Suc idx = len then Some q else None"
  from Cons.prems(1) obtain u1 c1 where a: "add (flush_loop k env) m ?dp c = Some (Returned u1, c1)"
    and f: "forEach_add (flush_loop k env) q len (Suc idx) ms c1 = Some (Returned u, c')"
    by (auto split: option.splits outcome.splits)
  from add_keeps_rest [OF a Cons.prems(2)] have "\<not> isFlushing c1" "mutatorsQueue c1 = []"
    by simp_all
  from Cons.IH [OF f this] show ?case .
qed

lemma update_keeps_rest:
  assumes "update (flush_loop k env) ms c = Some (Returned p, c')"
    and "\<not> isFlushing c" and "mutatorsQueue c = []"
  shows "mutatorsQueue c' = [] \<and> \<not> isFlushing c'"
proof -
  let ?c0 = "c\<lparr>deferreds := Suc (deferreds c)\<rparr>"
  from assms(1) obtain u where
    f: "forEach_add (flush_loop k env) (deferreds c) (length ms) 0 ms ?c0 = Some (Returned u, c')"
    by (auto simp: update_def Let_def split: option.splits outcome.splits)
  from forEach_add_keeps_rest [OF f] assms(2,3) show ?thesis by simp
qed

text \<open>Renders of the connected component.\<close>

lemma provided_first_render:
  "fst (connect_render (createStore env_watch (Literal \<lparr>count = n\<rparr>)) None
         (ContextBase (createStore env_watch (Literal \<lparr>count = n\<rparr>)))) = provided n"
  by (simp add: connect_render_def createStore_def stateReader_def useState_def provided_def)

lemma pending_render: "pending p c \<Longrightarrow> pending p (fst (connect_render st cell c))"
  by (simp add: pending_def connect_render_def Let_def split: prod.split)

lemma known_render: "promises_known c \<Longrightarrow> promises_known (fst (connect_render st cell c))"
  by (auto simp: promises_known_def connect_render_def Let_def split: prod.splits option.splits)

lemma pending_later_activity:
  "later_activity st (flush_loop k env) acts c = Some c' \<Longrightarrow> pending p c \<Longrightarrow> pending p c'"
proof (induction acts arbitrary: c)
  case Nil
  then show ?case by simp
next
  case (Cons a acts)
  show ?case
  proof (cases a)
    case (Update ms)
    with Cons.prems(1) obtain r1 c1 where u: "update (flush_loop k env) ms c = Some (r1, c1)"
      by (auto split: option.splits)
    with Cons.prems(1) Update have "later_activity st (flush_loop k env) acts c1 = Some c'" by simp
    from Cons.IH [OF this pending_update [OF u Cons.prems(2)]] show ?thesis .
  next
    case (Render s)
    with Cons.prems(1) have
      "later_activity st (flush_loop k env) acts (fst (connect_render st (Some s) c)) = Some c'"
      by simp
    from Cons.IH [OF this pending_render [OF Cons.prems(2)]] show ?thesis .
  qed
qed







lemma render_at_rest:
  "\<not> isFlushing c \<Longrightarrow> hasProvider c \<Longrightarrow>
   fst (connect_render (createStore env init) (Some (state c)) c) = c"
  by (simp add: connect_render_def createStore_def useState_def Let_def split: prod.split)



lemma unqueued_logged [simp]: "unqueued p (logged e c) = unqueued p c"
  by (simp add: unqueued_def)

lemma unqueued_commit [simp]: "unqueued p (commit dp n c) = unqueued p c"
  by (simp add: unqueued_def)












subsection \<open>The loop and the queue discipline of the specification\<close>





















subsection \<open>Runs of the concrete store\<close>

lemmas run_defs =
  update_def add_def flush_def flush_step_def create_def notify_def commit_def logged_def
  Let_def flush_loop.simps

lemma later_activity_example:
  "later_activity store0 (flush_loop (Suc (Suc (Suc 0))) env_watch)
     [Update [increment_and_update], Render \<lparr>count = 2\<rparr>, Update []]
     ((provided 0)\<lparr>deferreds := Suc (deferreds (provided 0))\<rparr>)
     = Some \<lparr>state = \<lparr>count = 2\<rparr>, hasProvider = True, mutatorsQueue = [], isFlushing = False,
          effects =
            [DrainEntered,
             Created True \<lparr>count = 0\<rparr> \<lparr>count = 0\<rparr> \<lparr>count = 1\<rparr>,
             Listened \<lparr>newState = \<lparr>count = 1\<rparr>, oldState = \<lparr>count = 0\<rparr>,
                       patches = [Patch ''replace'' [''count''] 1]\<rparr>,
             Assigned \<lparr>count = 1\<rparr>, Resolved 1 \<lparr>count = 1\<rparr>, SetState \<lparr>count = 1\<rparr>,
             Created True \<lparr>count = 1\<rparr> \<lparr>count = 1\<rparr> \<lparr>count = 2\<rparr>,
             Listened \<lparr>newState = \<lparr>count = 2\<rparr>, oldState = \<lparr>count = 1\<rparr>,
                       patches = [Patch ''replace'' [''count''] 2]\<rparr>,
             Assigned \<lparr>count = 2\<rparr>, Resolved 2 \<lparr>count = 2\<rparr>, SetState \<lparr>count = 2\<rparr>,
             DrainLeft],
          deferreds = 4\<rparr>"
  by (simp add: run_defs env_watch_def provided_def increment_and_update_def bump_def twice_def
      plain_def store0_def connect_render_def createStore_def stateReader_def useState_def)




subsection \<open>The claims\<close>










text \<open>
  Claim C4, as amended. An iteration whose mutator returns makes its calls in this order:
  the engine, the listener (if there is one), the assignment of the new state to
  \<open>this.state\<close>, the resolution of the promise (if the item carries one), and last the
  setter \<open>setState\<close>. If the listener throws, the iteration ends with that exception after
  the first two calls, the state being as before.
\<close>

theorem step_order:
  assumes "run (mutator item) (state c) (state c) = (calls, Inr n)"
  shows "(snd (heard env \<lparr>newState = n, oldState = state c,
                          patches = patches_for env (state c) n\<rparr>) = None \<longrightarrow>
          (\<exists>c'. flush_step d env item rest c = Some (Returned (), c')
           \<and> state c' = n
           \<and> effects c' = effects c
               @ [Created (APP_ENV env \<noteq> Some ''production'') (state c) (state c) n]
               @ (case listen env of
                    None \<Rightarrow> []
                  | Some l \<Rightarrow> [Listened \<lparr>newState = n, oldState = state c,
                                         patches = patches_for env (state c) n\<rparr>])
               @ [Assigned n]
               @ (case deferredPromise item of None \<Rightarrow> [] | Some p \<Rightarrow> [Resolved p n])
               @ [SetState n]))
       \<and> (\<forall>e. snd (heard env \<lparr>newState = n, oldState = state c,
                          patches = patches_for env (state c) n\<rparr>) = Some e \<longrightarrow>
          (\<exists>c'. flush_step d env item rest c = Some (Thrown e, c')
           \<and> state c' = state c
           \<and> effects c' = effects c
               @ [Created (APP_ENV env \<noteq> Some ''production'') (state c) (state c) n]
               @ (case listen env of
                    None \<Rightarrow> []
                  | Some l \<Rightarrow> [Listened \<lparr>newState = n, oldState = state c,
                                         patches = patches_for env (state c) n\<rparr>])))"
proof (intro conjI impI allI)
  assume h: "snd (heard env \<lparr>newState = n, oldState = state c,
                          patches = patches_for env (state c) n\<rparr>) = None"
  note sr = step_result_returned [OF assms h, of rest]
  from sr(1) obtain c1 where eq: "step_result env item rest c = (Returned (), c1)"
    by (cases "step_result env item rest c") simp
  from sr(2,5) eq have "state c1 = n"
      "effects c1 = effects c @ step_effects env (deferredPromise item) (state c) n"
    by simp_all
  then show "\<exists>c'. flush_step d env item rest c = Some (Returned (), c')
           \<and> state c' = n
           \<and> effects c' = effects c
               @ [Created (APP_ENV env \<noteq> Some ''production'') (state c) (state c) n]
               @ (case listen env of
                    None \<Rightarrow> []
                  | Some l \<Rightarrow> [Listened \<lparr>newState = n, oldState = state c,
                                         patches = patches_for env (state c) n\<rparr>])
               @ [Assigned n]
               @ (case deferredPromise item of None \<Rightarrow> [] | Some p \<Rightarrow> [Resolved p n])
               @ [SetState n]"
    by (simp add: flush_step_flat eq step_effects_def)
next
  fix e
  assume h: "snd (heard env \<lparr>newState = n, oldState = state c,
                          patches = patches_for env (state c) n\<rparr>) = Some e"
  note sr = step_result_cut [OF assms h, of rest]
  from sr(1) obtain c1 where eq: "step_result env item rest c = (Thrown e, c1)"
    by (cases "step_result env item rest c") simp
  from sr(2,5) eq have "state c1 = state c"
      "effects c1 = effects c @ cut_effects env (state c) (Some n)"
    by simp_all
  then show "\<exists>c'. flush_step d env item rest c = Some (Thrown e, c')
           \<and> state c' = state c
           \<and> effects c' = effects c
               @ [Created (APP_ENV env \<noteq> Some ''production'') (state c) (state c) n]
               @ (case listen env of
                    None \<Rightarrow> []
                  | Some l \<Rightarrow> [Listened \<lparr>newState = n, oldState = state c,
                                         patches = patches_for env (state c) n\<rparr>])"
    by (simp add: flush_step_flat eq cut_effects_def)
qed

theorem step_order_witness:
  "run (mutator \<lparr>mutator = plain (bump 1), deferredPromise = Some 0\<rparr>) (state (provided 0))
       (state (provided 0)) = ([], Inr \<lparr>count = 1\<rparr>)
   \<and> snd (heard env_watch \<lparr>newState = \<lparr>count = 1\<rparr>, oldState = state (provided 0),
         patches = patches_for env_watch (state (provided 0)) \<lparr>count = 1\<rparr>\<rparr>) = None
   \<and> snd (heard env_throwing \<lparr>newState = \<lparr>count = 1\<rparr>, oldState = state (provided 0),
         patches = patches_for env_throwing (state (provided 0)) \<lparr>count = 1\<rparr>\<rparr>)
       = Some (Error ''listener'')
   \<and> (\<exists>c'. flush_step (\<lambda>c. None) env_watch \<lparr>mutator = plain (bump 1), deferredPromise = Some 0\<rparr>
              [] (provided 0) = Some (Returned (), c')
          \<and> effects c' =
              [Created True \<lparr>count = 0\<rparr> \<lparr>count = 0\<rparr> \<lparr>count = 1\<rparr>,
               Listened \<lparr>newState = \<lparr>count = 1\<rparr>, oldState = \<lparr>count = 0\<rparr>,
                         patches = [Patch ''replace'' [''count''] 1]\<rparr>,
               Assigned \<lparr>count = 1\<rparr>, Resolved 0 \<lparr>count = 1\<rparr>, SetState \<lparr>count = 1\<rparr>])
   \<and> (\<exists>c'. flush_step (\<lambda>c. None) env_throwing
              \<lparr>mutator = plain (bump 1), deferredPromise = Some 0\<rparr>
              [] (provided 0) = Some (Thrown (Error ''listener''), c')
          \<and> state c' = \<lparr>count = 0\<rparr>
          \<and> effects c' =
              [Created True \<lparr>count = 0\<rparr> \<lparr>count = 0\<rparr> \<lparr>count = 1\<rparr>,
               Listened \<lparr>newState = \<lparr>count = 1\<rparr>, oldState = \<lparr>count = 0\<rparr>,
                         patches = [Patch ''replace'' [''count''] 1]\<rparr>])"
proof -
  have r: "run (mutator \<lparr>mutator = plain (bump 1), deferredPromise = Some 0\<rparr>) (state (provided 0))
       (state (provided 0)) = ([], Inr \<lparr>count = 1\<rparr>)"
    by (simp add: provided_def bump_def)
  have h1: "snd (heard env_watch \<lparr>newState = \<lparr>count = 1\<rparr>, oldState = state (provided 0),
         patches = patches_for env_watch (state (provided 0)) \<lparr>count = 1\<rparr>\<rparr>) = None"
    by (simp add: heard_def env_watch_def)
  have h2: "snd (heard env_throwing \<lparr>newState = \<lparr>count = 1\<rparr>, oldState = state (provided 0),
         patches = patches_for env_throwing (state (provided 0)) \<lparr>count = 1\<rparr>\<rparr>)
       = Some (Error ''listener'')"
    by (simp add: heard_def env_throwing_def env_watch_def)
  from step_order [OF r, of env_watch "\<lambda>c. None" "[]"] h1 obtain c' where
    "flush_step (\<lambda>c. None) env_watch \<lparr>mutator = plain (bump 1), deferredPromise = Some 0\<rparr>
       [] (provided 0) = Some (Returned (), c')"
    "effects c' = effects (provided 0)
       @ [Created (APP_ENV env_watch \<noteq> Some ''production'') (state (provided 0))
            (state (provided 0)) \<lparr>count = 1\<rparr>]
       @ (case listen env_watch of
            None \<Rightarrow> []
          | Some l \<Rightarrow> [Listened \<lparr>newState = \<lparr>count = 1\<rparr>, oldState = state (provided 0),
                                 patches = patches_for env_watch (state (provided 0)) \<lparr>count = 1\<rparr>\<rparr>])
       @ [Assigned \<lparr>count = 1\<rparr>]
       @ (case deferredPromise \<lparr>mutator = plain (bump 1), deferredPromise = Some 0\<rparr> of
            None \<Rightarrow> [] | Some p \<Rightarrow> [Resolved p \<lparr>count = 1\<rparr>])
       @ [SetState \<lparr>count = 1\<rparr>]"
    by blast
  then have 1: "\<exists>c'. flush_step (\<lambda>c. None) env_watch \<lparr>mutator = plain (bump 1), deferredPromise = Some 0\<rparr>
              [] (provided 0) = Some (Returned (), c')
          \<and> effects c' =
              [Created True \<lparr>count = 0\<rparr> \<lparr>count = 0\<rparr> \<lparr>count = 1\<rparr>,
               Listened \<lparr>newState = \<lparr>count = 1\<rparr>, oldState = \<lparr>count = 0\<rparr>,
                         patches = [Patch ''replace'' [''count''] 1]\<rparr>,
               Assigned \<lparr>count = 1\<rparr>, Resolved 0 \<lparr>count = 1\<rparr>, SetState \<lparr>count = 1\<rparr>]"
    by (simp add: provided_def env_watch_def patches_for_def)
  from step_order [OF r, of env_throwing "\<lambda>c. None" "[]"] h2 obtain c' where
    "flush_step (\<lambda>c. None) env_throwing \<lparr>mutator = plain (bump 1), deferredPromise = Some 0\<rparr>
       [] (provided 0) = Some (Thrown (Error ''listener''), c')"
    "state c' = state (provided 0)"
    "effects c' = effects (provided 0)
       @ [Created (APP_ENV env_throwing \<noteq> Some ''production'') (state (provided 0))
            (state (provided 0)) \<lparr>count = 1\<rparr>]
       @ (case listen env_throwing of
            None \<Rightarrow> []
          | Some l \<Rightarrow> [Listened \<lparr>newState = \<lparr>count = 1\<rparr>, oldState = state (provided 0),
                                 patches = patches_for env_throwing (state (provided 0)) \<lparr>count = 1\<rparr>\<rparr>])"
    by blast
  then have 2: "\<exists>c'. flush_step (\<lambda>c. None) env_throwing
              \<lparr>mutator = plain (bump 1), deferredPromise = Some 0\<rparr>
              [] (provided 0) = Some (Thrown (Error ''listener''), c')
          \<and> state c' = \<lparr>count = 0\<rparr>
          \<and> effects c' =
              [Created True \<lparr>count = 0\<rparr> \<lparr>count = 0\<rparr> \<lparr>count = 1\<rparr>,
               Listened \<lparr>newState = \<lparr>count = 1\<rparr>, oldState = \<lparr>count = 0\<rparr>,
                         patches = [Patch ''replace'' [''count''] 1]\<rparr>]"
    by (simp add: provided_def env_throwing_def env_watch_def patches_for_def)
  from r h1 h2 1 2 show ?thesis by blast
qed

text \<open>
  The claim puts the setter before the resolution. In the log of \<open>update(bump 1)\<close> the
  promise is resolved before the setter is called, and no resolution follows the setter.
\<close>

theorem resolve_after_setState_counterexample:
  "update (flush_loop (Suc (Suc 0)) env_watch) [plain (bump 1)] (provided 0)
     = Some (Returned 0,
         \<lparr>state = \<lparr>count = 1\<rparr>, hasProvider = True, mutatorsQueue = [], isFlushing = False,
          effects =
            [DrainEntered,
             Created True \<lparr>count = 0\<rparr> \<lparr>count = 0\<rparr> \<lparr>count = 1\<rparr>,
             Listened \<lparr>newState = \<lparr>count = 1\<rparr>, oldState = \<lparr>count = 0\<rparr>,
                       patches = [Patch ''replace'' [''count''] 1]\<rparr>,
             Assigned \<lparr>count = 1\<rparr>, Resolved 0 \<lparr>count = 1\<rparr>, SetState \<lparr>count = 1\<rparr>,
             DrainLeft],
          deferreds = 1\<rparr>)
   \<and> \<not> occurs_before (SetState \<lparr>count = 1\<rparr>) (Resolved 0 \<lparr>count = 1\<rparr>)
            [DrainEntered,
             Created True \<lparr>count = 0\<rparr> \<lparr>count = 0\<rparr> \<lparr>count = 1\<rparr>,
             Listened \<lparr>newState = \<lparr>count = 1\<rparr>, oldState = \<lparr>count = 0\<rparr>,
                       patches = [Patch ''replace'' [''count''] 1]\<rparr>,
             Assigned \<lparr>count = 1\<rparr>, Resolved 0 \<lparr>count = 1\<rparr>, SetState \<lparr>count = 1\<rparr>,
             DrainLeft]"
  by (simp add: run_defs env_watch_def provided_def bump_def plain_def)




text \<open>
  Claim C6, as amended. In a store with a listener, a step whose mutator returns calls the
  listener once, with the patches that the engine reports for the step when \<open>APP_ENV\<close> is
  not \<open>production\<close> and with no patches otherwise; the engine is called with
  \<open>enablePatches\<close> in the first case only. So the patches of the listener are non-empty
  exactly when \<open>APP_ENV\<close> is not \<open>production\<close> and the engine reports at least one patch
  for the step.
\<close>

theorem patches_only_in_diagnostic_mode:
  assumes "listen env = Some l" and "run (mutator item) (state c) (state c) = (calls, Inr n)"
  shows "\<exists>r c' evs ps.
           flush_step d env item rest c = Some (r, c')
         \<and> effects c' = effects c @ evs
         \<and> listened evs = [\<lparr>newState = n, oldState = state c, patches = ps\<rparr>]
         \<and> ps = (if APP_ENV env \<noteq> Some ''production'' then patchesOf env (state c) n else [])
         \<and> hd evs = Created (APP_ENV env \<noteq> Some ''production'') (state c) (state c) n
         \<and> (ps \<noteq> []) = (APP_ENV env \<noteq> Some ''production'' \<and> patchesOf env (state c) n \<noteq> [])"
proof -
  let ?ps = "patches_for env (state c) n"
  let ?d = "\<lparr>newState = n, oldState = state c, patches = ?ps\<rparr>"
  have ps: "?ps = (if APP_ENV env \<noteq> Some ''production'' then patchesOf env (state c) n else [])"
      "(?ps \<noteq> []) = (APP_ENV env \<noteq> Some ''production'' \<and> patchesOf env (state c) n \<noteq> [])"
    by (simp_all add: patches_for_def)
  show ?thesis
  proof (cases "snd (heard env ?d)")
    case None
    note sr = step_result_returned [OF assms(2) None, of rest]
    from sr(1) obtain c1 where eq: "step_result env item rest c = (Returned (), c1)"
      by (cases "step_result env item rest c") simp
    from sr(5) eq have e: "effects c1 = effects c @ step_effects env (deferredPromise item) (state c) n"
      by simp
    have "flush_step d env item rest c = Some (Returned (), c1)"
      by (simp add: flush_step_flat eq)
    moreover have "listened (step_effects env (deferredPromise item) (state c) n) = [?d]"
      using listened_step_effects [OF assms(1), of "deferredPromise item" "state c" n]
      by (simp add: listen_data_def)
    moreover have "hd (step_effects env (deferredPromise item) (state c) n)
         = Created (APP_ENV env \<noteq> Some ''production'') (state c) (state c) n"
      by (simp add: step_effects_def)
    ultimately show ?thesis using e ps by blast
  next
    case (Some e)
    note sr = step_result_cut [OF assms(2) Some, of rest]
    from sr(1) obtain c1 where eq: "step_result env item rest c = (Thrown e, c1)"
      by (cases "step_result env item rest c") simp
    from sr(5) eq have e: "effects c1 = effects c @ cut_effects env (state c) (Some n)"
      by simp
    have "flush_step d env item rest c = Some (Thrown e, c1)"
      by (simp add: flush_step_flat eq)
    moreover have "listened (cut_effects env (state c) (Some n)) = [?d]"
      using assms(1) by (simp add: cut_effects_def)
    moreover have "hd (cut_effects env (state c) (Some n))
         = Created (APP_ENV env \<noteq> Some ''production'') (state c) (state c) n"
      by (simp add: cut_effects_def)
    ultimately show ?thesis using e ps by blast
  qed
qed

theorem patches_only_in_diagnostic_mode_witness:
  "listen env_production = Some (\<lambda>d. ([], None))
   \<and> listen env_throwing = Some (\<lambda>d. ([], Some (Error ''listener'')))
   \<and> run (mutator \<lparr>mutator = plain (bump 42), deferredPromise = None\<rparr>) (state (provided 0))
        (state (provided 0)) = ([], Inr \<lparr>count = 42\<rparr>)
   \<and> (\<exists>c' evs. flush_step (\<lambda>c. None) env_watch \<lparr>mutator = plain (bump 42), deferredPromise = None\<rparr>
                  [] (provided 0) = Some (Returned (), c')
              \<and> effects c' = evs
              \<and> listened evs = [\<lparr>newState = \<lparr>count = 42\<rparr>, oldState = \<lparr>count = 0\<rparr>,
                                 patches = [Patch ''replace'' [''count''] 42]\<rparr>]
              \<and> hd evs = Created True \<lparr>count = 0\<rparr> \<lparr>count = 0\<rparr> \<lparr>count = 42\<rparr>)
   \<and> (\<exists>c' evs. flush_step (\<lambda>c. None) env_production
                  \<lparr>mutator = plain (bump 42), deferredPromise = None\<rparr>
                  [] (provided 0) = Some (Returned (), c')
              \<and> effects c' = evs
              \<and> listened evs = [\<lparr>newState = \<lparr>count = 42\<rparr>, oldState = \<lparr>count = 0\<rparr>, patches = []\<rparr>]
              \<and> hd evs = Created False \<lparr>count = 0\<rparr> \<lparr>count = 0\<rparr> \<lparr>count = 42\<rparr>)
   \<and> (\<exists>c' evs. flush_step (\<lambda>c. None) env_throwing
                  \<lparr>mutator = plain (bump 42), deferredPromise = None\<rparr>
                  [] (provided 0) = Some (Thrown (Error ''listener''), c')
              \<and> effects c' = evs
              \<and> listened evs = [\<lparr>newState = \<lparr>count = 42\<rparr>, oldState = \<lparr>count = 0\<rparr>,
                                 patches = [Patch ''replace'' [''count''] 42]\<rparr>])"
proof -
  have l: "listen env_production = Some (\<lambda>d. ([], None))" "listen env_watch = Some (\<lambda>d. ([], None))"
      "listen env_throwing = Some (\<lambda>d. ([], Some (Error ''listener'')))"
    by (simp_all add: env_production_def env_watch_def env_throwing_def)
  have r: "run (mutator \<lparr>mutator = plain (bump 42), deferredPromise = None\<rparr>) (state (provided 0))
        (state (provided 0)) = ([], Inr \<lparr>count = 42\<rparr>)"
    by (simp add: provided_def bump_def)
  from patches_only_in_diagnostic_mode [OF l(2) r, of "\<lambda>c. None" "[]"]
  have 1: "\<exists>c' evs. flush_step (\<lambda>c. None) env_watch \<lparr>mutator = plain (bump 42), deferredPromise = None\<rparr>
                  [] (provided 0) = Some (Returned (), c')
              \<and> effects c' = evs
              \<and> listened evs = [\<lparr>newState = \<lparr>count = 42\<rparr>, oldState = \<lparr>count = 0\<rparr>,
                                 patches = [Patch ''replace'' [''count''] 42]\<rparr>]
              \<and> hd evs = Created True \<lparr>count = 0\<rparr> \<lparr>count = 0\<rparr> \<lparr>count = 42\<rparr>"
    by (auto simp: provided_def env_watch_def flush_step_flat step_result_def Let_def heard_def
        bump_def)
  from patches_only_in_diagnostic_mode [OF l(1) r, of "\<lambda>c. None" "[]"]
  have 2: "\<exists>c' evs. flush_step (\<lambda>c. None) env_production
                  \<lparr>mutator = plain (bump 42), deferredPromise = None\<rparr>
                  [] (provided 0) = Some (Returned (), c')
              \<and> effects c' = evs
              \<and> listened evs = [\<lparr>newState = \<lparr>count = 42\<rparr>, oldState = \<lparr>count = 0\<rparr>, patches = []\<rparr>]
              \<and> hd evs = Created False \<lparr>count = 0\<rparr> \<lparr>count = 0\<rparr> \<lparr>count = 42\<rparr>"
    by (auto simp: provided_def env_production_def env_watch_def flush_step_flat step_result_def
        Let_def heard_def bump_def)
  from patches_only_in_diagnostic_mode [OF l(3) r, of "\<lambda>c. None" "[]"]
  have 3: "\<exists>c' evs. flush_step (\<lambda>c. None) env_throwing
                  \<lparr>mutator = plain (bump 42), deferredPromise = None\<rparr>
                  [] (provided 0) = Some (Thrown (Error ''listener''), c')
              \<and> effects c' = evs
              \<and> listened evs = [\<lparr>newState = \<lparr>count = 42\<rparr>, oldState = \<lparr>count = 0\<rparr>,
                                 patches = [Patch ''replace'' [''count''] 42]\<rparr>]"
    by (auto simp: provided_def env_throwing_def env_watch_def flush_step_flat step_result_def
        Let_def heard_def bump_def)
  from l(1,3) r 1 2 3 show ?thesis by blast
qed

text \<open>
  The claim has the patches non-empty whenever diagnostic mode is enabled and the step
  performs a write. With \<open>APP_ENV\<close> unset, the mutators \<open>draft.count += 0\<close> and
  \<open>draft.count += 1; draft.count -= 1\<close> write to the draft, and the listener gets no patch:
  the engine reports none for a value that ends as it began.
\<close>

theorem write_without_patch_counterexample:
  "APP_ENV env_watch \<noteq> Some ''production''
   \<and> flush_step (\<lambda>c. None) env_watch \<lparr>mutator = plain (bump 0), deferredPromise = None\<rparr> []
        (provided 0)
     = Some (Returned (),
         \<lparr>state = \<lparr>count = 0\<rparr>, hasProvider = True, mutatorsQueue = [], isFlushing = True,
          effects =
            [Created True \<lparr>count = 0\<rparr> \<lparr>count = 0\<rparr> \<lparr>count = 0\<rparr>,
             Listened \<lparr>newState = \<lparr>count = 0\<rparr>, oldState = \<lparr>count = 0\<rparr>, patches = []\<rparr>,
             Assigned \<lparr>count = 0\<rparr>, SetState \<lparr>count = 0\<rparr>],
          deferreds = 0\<rparr>)
   \<and> flush_step (\<lambda>c. None) env_watch \<lparr>mutator = plain forth_and_back, deferredPromise = None\<rparr> []
        (provided 0)
     = Some (Returned (),
         \<lparr>state = \<lparr>count = 0\<rparr>, hasProvider = True, mutatorsQueue = [], isFlushing = True,
          effects =
            [Created True \<lparr>count = 0\<rparr> \<lparr>count = 0\<rparr> \<lparr>count = 0\<rparr>,
             Listened \<lparr>newState = \<lparr>count = 0\<rparr>, oldState = \<lparr>count = 0\<rparr>, patches = []\<rparr>,
             Assigned \<lparr>count = 0\<rparr>, SetState \<lparr>count = 0\<rparr>],
          deferreds = 0\<rparr>)"
  by (simp add: run_defs env_watch_def provided_def bump_def forth_and_back_def plain_def)

text \<open>
  Claim C7. Without a provider above the calling component, \<open>useStore\<close> gets the default
  value of the context, whose \<open>hasProvider\<close> is false, and throws the error
  \<open>Component must be wrapped with "connect(...)"\<close>: neither a state nor an \<open>update\<close> is
  returned. Under the provider of \<open>connect\<close> it returns the state and \<open>update\<close>.
\<close>

theorem useStore_outside_connect:
  "useStore (createStore env init) None =
     Inl (Error (''Component must be wrapped with '' @ [CHR 0x22] @ ''connect(...)'' @ [CHR 0x22]))
   \<and> useStore st (Some (fst (connect_render st cell prev))) =
       Inr (state (fst (connect_render st cell prev)), fst (connect_render st cell prev))"
  by (simp add: useStore_def useContext_def createStore_def connect_render_def Let_def
      split: prod.split)

text \<open>
  Claim C8, as amended. \<open>createStore\<close> evaluates a producer once, for the state of
  \<open>ContextBase\<close>. The first render of a component returned by \<open>connect\<close> evaluates it once
  more (\<open>useState(stateReader)\<close>), and the result of that evaluation is the state it
  provides. A later render does not evaluate it. The functions \<open>useStore\<close>, \<open>update\<close>, \<open>add\<close>
  and \<open>flush\<close> do not reach the producer.
\<close>

theorem producer_evaluations:
  "evaluations (createStore env (Producer f)) = 1
   \<and> state (ContextBase (createStore env (Producer f))) = f 0
   \<and> evaluations (snd (connect_render st None prev)) =
       (case initialState st of
          Producer g \<Rightarrow> Suc (evaluations st)
        | Literal v \<Rightarrow> evaluations st)
   \<and> state (fst (connect_render (createStore env (Producer f)) None prev)) = f 1
   \<and> evaluations (snd (connect_render st (Some s) prev)) = evaluations st
   \<and> state (fst (connect_render st (Some s) prev)) = s"
  by (simp add: createStore_def stateReader_def connect_render_def useState_def Let_def
      split: prod.split initial.split)

text \<open>
  The claim allows one evaluation only. After \<open>createStore\<close> and the first render of the
  connected component the producer has been evaluated twice, and the state provided is the
  result of the second evaluation.
\<close>

theorem producer_evaluated_at_mount_counterexample:
  "evaluations (createStore env_watch (Producer numbered)) = 1
   \<and> evaluations (snd (connect_render (createStore env_watch (Producer numbered)) None
         (ContextBase (createStore env_watch (Producer numbered))))) = 2
   \<and> state (ContextBase (createStore env_watch (Producer numbered))) = \<lparr>count = 0\<rparr>
   \<and> state (fst (connect_render (createStore env_watch (Producer numbered)) None
         (ContextBase (createStore env_watch (Producer numbered))))) = \<lparr>count = 1\<rparr>"
  by (simp add: createStore_def stateReader_def connect_render_def useState_def Let_def
      numbered_def)

text \<open>
  Claim C9, as amended. If the mutator at the head of the queue throws, the loop ends with
  that exception; the item is no longer in the queue, the items behind it are still there
  (with those the mutator appended before it threw), the state is unchanged and
  \<open>isFlushing\<close> stays set on the context object. From then on every sequence of \<open>update\<close>
  calls through that context object returns having appended its items only: the state and
  the log stay as they are. The exception leaves \<open>update\<close> itself when the first mutator of
  a call on a context object at rest throws, and the other mutators of the call are not
  added.
\<close>

theorem mutator_failure_blocks:
  assumes "run (mutator item) (state c) (state c) = (calls, Inl e)"
  shows "(mutatorsQueue c = item # rest \<longrightarrow>
           (\<exists>c'. flush_loop (Suc k) env c = Some (Thrown e, c')
              \<and> mutatorsQueue c' = rest @ calls_items (deferreds c) calls
              \<and> isFlushing c' \<and> state c' = state c \<and> effects c' = effects c @ [DrainLeft]
              \<and> (\<forall>d later.
                    later_updates d later c' = Some (enqueue_calls later c')
                    \<and> isFlushing (enqueue_calls later c')
                    \<and> state (enqueue_calls later c') = state c
                    \<and> effects (enqueue_calls later c') = effects c'
                    \<and> mutatorsQueue (enqueue_calls later c')
                        = mutatorsQueue c' @ calls_items (deferreds c') later)))
       \<and> (\<not> isFlushing c \<and> mutatorsQueue c = [] \<longrightarrow>
           (\<exists>c'. update (flush_loop (Suc k) env) (mutator item # ms) c = Some (Thrown e, c')
              \<and> mutatorsQueue c' = calls_items (Suc (deferreds c)) calls
              \<and> isFlushing c' \<and> state c' = state c
              \<and> effects c' = effects c @ [DrainEntered, DrainLeft]))"
proof (intro conjI impI)
  assume q: "mutatorsQueue c = item # rest"
  let ?c' = "logged DrainLeft (enqueue_calls calls (c\<lparr>isFlushing := True, mutatorsQueue := rest\<rparr>))"
  have busy: "isFlushing ?c'" by simp
  have "flush_loop (Suc k) env c = Some (Thrown e, ?c')"
    by (rule flush_loop_thrown [OF assms q])
  moreover have "mutatorsQueue ?c' = rest @ calls_items (deferreds c) calls"
    by (simp add: enqueue_calls_queue)
  moreover have "state ?c' = state c" "effects ?c' = effects c @ [DrainLeft]" by simp_all
  moreover have "\<forall>d later.
                    later_updates d later ?c' = Some (enqueue_calls later ?c')
                    \<and> isFlushing (enqueue_calls later ?c')
                    \<and> state (enqueue_calls later ?c') = state c
                    \<and> effects (enqueue_calls later ?c') = effects ?c'
                    \<and> mutatorsQueue (enqueue_calls later ?c')
                        = mutatorsQueue ?c' @ calls_items (deferreds ?c') later"
    using busy by (simp add: later_updates_busy enqueue_calls_queue)
  ultimately show "\<exists>c'. flush_loop (Suc k) env c = Some (Thrown e, c')
              \<and> mutatorsQueue c' = rest @ calls_items (deferreds c) calls
              \<and> isFlushing c' \<and> state c' = state c \<and> effects c' = effects c @ [DrainLeft]
              \<and> (\<forall>d later.
                    later_updates d later c' = Some (enqueue_calls later c')
                    \<and> isFlushing (enqueue_calls later c')
                    \<and> state (enqueue_calls later c') = state c
                    \<and> effects (enqueue_calls later c') = effects c'
                    \<and> mutatorsQueue (enqueue_calls later c')
                        = mutatorsQueue c' @ calls_items (deferreds c') later)"
    using busy by blast
next
  assume a: "\<not> isFlushing c \<and> mutatorsQueue c = []"
  let ?dp = "if ms = [] then Some (deferreds c) else None"
  let ?it = "\<lparr>mutator = mutator item, deferredPromise = ?dp\<rparr>"
  let ?c1 = "logged DrainEntered (c\<lparr>deferreds := Suc (deferreds c), mutatorsQueue := [?it]\<rparr>)"
  let ?c' = "logged DrainLeft (enqueue_calls calls (?c1\<lparr>isFlushing := True, mutatorsQueue := []\<rparr>))"
  have r: "run (mutator ?it) (state ?c1) (state ?c1) = (calls, Inl e)"
    using assms by simp
  have q: "mutatorsQueue ?c1 = ?it # []" by simp
  have "flush_loop (Suc k) env ?c1 = Some (Thrown e, ?c')"
    by (rule flush_loop_thrown [OF r q])
  with a have "update (flush_loop (Suc k) env) (mutator item # ms) c = Some (Thrown e, ?c')"
    by (simp add: update_def Let_def add_def flush_def)
  moreover have "mutatorsQueue ?c' = calls_items (Suc (deferreds c)) calls"
    by (simp add: enqueue_calls_queue)
  moreover have "isFlushing ?c'" "state ?c' = state c"
      "effects ?c' = effects c @ [DrainEntered, DrainLeft]" by simp_all
  ultimately show "\<exists>c'. update (flush_loop (Suc k) env) (mutator item # ms) c = Some (Thrown e, c')
              \<and> mutatorsQueue c' = calls_items (Suc (deferreds c)) calls
              \<and> isFlushing c' \<and> state c' = state c
              \<and> effects c' = effects c @ [DrainEntered, DrainLeft]"
    by blast
qed

theorem mutator_failure_blocks_witness:
  "run (mutator \<lparr>mutator = failing, deferredPromise = None\<rparr>) (state (provided 0)) (state (provided 0))
      = ([], Inl (Error ''boom''))
   \<and> \<not> isFlushing (provided 0) \<and> mutatorsQueue (provided 0) = []
   \<and> mutatorsQueue ((provided 0)\<lparr>mutatorsQueue :=
          [\<lparr>mutator = failing, deferredPromise = None\<rparr>,
           \<lparr>mutator = plain (bump 1), deferredPromise = Some 0\<rparr>]\<rparr>)
       = \<lparr>mutator = failing, deferredPromise = None\<rparr>
         # [\<lparr>mutator = plain (bump 1), deferredPromise = Some 0\<rparr>]
   \<and> (\<exists>c'. flush_loop (Suc 0) env_watch
              ((provided 0)\<lparr>mutatorsQueue :=
                 [\<lparr>mutator = failing, deferredPromise = None\<rparr>,
                  \<lparr>mutator = plain (bump 1), deferredPromise = Some 0\<rparr>]\<rparr>)
              = Some (Thrown (Error ''boom''), c')
          \<and> mutatorsQueue c' = [\<lparr>mutator = plain (bump 1), deferredPromise = Some 0\<rparr>]
          \<and> isFlushing c' \<and> state c' = \<lparr>count = 0\<rparr>)
   \<and> (\<exists>c'. update (flush_loop (Suc 0) env_watch) [failing, plain (bump 1)] (provided 0)
              = Some (Thrown (Error ''boom''), c')
          \<and> mutatorsQueue c' = [] \<and> isFlushing c' \<and> state c' = \<lparr>count = 0\<rparr>
          \<and> effects c' = [DrainEntered, DrainLeft])"
proof -
  have r: "run (mutator \<lparr>mutator = failing, deferredPromise = None\<rparr>) (state (provided 0)) (state (provided 0))
      = ([], Inl (Error ''boom''))"
    by (simp add: failing_def)
  let ?c = "(provided 0)\<lparr>mutatorsQueue :=
          [\<lparr>mutator = failing, deferredPromise = None\<rparr>,
           \<lparr>mutator = plain (bump 1), deferredPromise = Some 0\<rparr>]\<rparr>"
  have r2: "run (mutator \<lparr>mutator = failing, deferredPromise = None\<rparr>) (state ?c) (state ?c)
      = ([], Inl (Error ''boom''))"
    by (simp add: failing_def)
  have h: "\<not> isFlushing (provided 0) \<and> mutatorsQueue (provided 0) = []"
    by (simp add: provided_def)
  have q: "mutatorsQueue ?c = \<lparr>mutator = failing, deferredPromise = None\<rparr>
         # [\<lparr>mutator = plain (bump 1), deferredPromise = Some 0\<rparr>]"
    by simp
  from mutator_failure_blocks [OF r2, of "[\<lparr>mutator = plain (bump 1), deferredPromise = Some 0\<rparr>]" 0 env_watch] q
  have 1: "\<exists>c'. flush_loop (Suc 0) env_watch ?c = Some (Thrown (Error ''boom''), c')
          \<and> mutatorsQueue c' = [\<lparr>mutator = plain (bump 1), deferredPromise = Some 0\<rparr>]
          \<and> isFlushing c' \<and> state c' = \<lparr>count = 0\<rparr>"
    by (auto simp: provided_def)
  from mutator_failure_blocks [OF r, of _ 0 env_watch "[plain (bump 1)]"] h
  have 2: "\<exists>c'. update (flush_loop (Suc 0) env_watch) [failing, plain (bump 1)] (provided 0)
              = Some (Thrown (Error ''boom''), c')
          \<and> mutatorsQueue c' = [] \<and> isFlushing c' \<and> state c' = \<lparr>count = 0\<rparr>
          \<and> effects c' = [DrainEntered, DrainLeft]"
    by (auto simp: provided_def)
  from r h q 1 2 show ?thesis by blast
qed

text \<open>
  The claim says that no step enqueued after the failure is ever applied. \<open>isFlushing\<close>
  belongs to the provider value of one render, and the queue to all of them. In \<open>store0\<close>,
  \<open>update(bump 1, failing)\<close> applies the first step, which calls the setter, and throws at
  the second; \<open>update(bump 10)\<close> through the same context object only enqueues its step.
  The render that the setter call brings about provides a context object that is not
  flushing, and \<open>update(twice)\<close> through it applies both the step left in the queue, whose
  promise resolves with \<open>{count: 11}\<close>, and its own.
\<close>

theorem later_render_drains_counterexample:
  "update (flush_loop (Suc (Suc 0)) env_watch) [plain (bump 1), failing] (provided 0)
     = Some (Thrown (Error ''boom''), after_failure)
   \<and> update (flush_loop (Suc (Suc 0)) env_watch) [plain (bump 10)] after_failure
     = Some (Returned 1, after_blocked_update)
   \<and> fst (connect_render store0
            (Some (react_state \<lparr>count = 0\<rparr> (effects after_blocked_update))) after_blocked_update)
     = next_provided
   \<and> update (flush_loop (Suc (Suc (Suc 0))) env_watch) [plain twice] next_provided
     = Some (Returned 2,
         \<lparr>state = \<lparr>count = 22\<rparr>, hasProvider = True, mutatorsQueue = [], isFlushing = False,
          effects = effects after_failure @
            [DrainEntered,
             Created True \<lparr>count = 1\<rparr> \<lparr>count = 1\<rparr> \<lparr>count = 11\<rparr>,
             Listened \<lparr>newState = \<lparr>count = 11\<rparr>, oldState = \<lparr>count = 1\<rparr>,
                       patches = [Patch ''replace'' [''count''] 11]\<rparr>,
             Assigned \<lparr>count = 11\<rparr>, Resolved 1 \<lparr>count = 11\<rparr>, SetState \<lparr>count = 11\<rparr>,
             Created True \<lparr>count = 11\<rparr> \<lparr>count = 11\<rparr> \<lparr>count = 22\<rparr>,
             Listened \<lparr>newState = \<lparr>count = 22\<rparr>, oldState = \<lparr>count = 11\<rparr>,
                       patches = [Patch ''replace'' [''count''] 22]\<rparr>,
             Assigned \<lparr>count = 22\<rparr>, Resolved 2 \<lparr>count = 22\<rparr>, SetState \<lparr>count = 22\<rparr>,
             DrainLeft],
          deferreds = 3\<rparr>)"
  by (simp add: run_defs env_watch_def provided_def failing_def bump_def twice_def plain_def
      after_failure_def after_blocked_update_def next_provided_def
      store0_def connect_render_def createStore_def stateReader_def useState_def)

text \<open>
  Claim C10. \<open>update()\<close> without mutators returns a new promise and leaves the context
  object as it is but for the count of promises: no item is enqueued, the state is the same
  and nothing is logged (neither the engine nor the listener is called). Whatever follows,
  \<open>update\<close> calls and renders of the connected component, the log never resolves that
  promise; the module never rejects a promise.
\<close>

theorem update_without_mutators:
  assumes "promises_known c"
  shows "update d [] c = Some (Returned (deferreds c), c\<lparr>deferreds := Suc (deferreds c)\<rparr>)
       \<and> (later_activity st (flush_loop k env) acts (c\<lparr>deferreds := Suc (deferreds c)\<rparr>) = Some c'
            \<longrightarrow> resolutions (deferreds c) (effects c') = [])"
proof (intro conjI impI)
  show "update d [] c = Some (Returned (deferreds c), c\<lparr>deferreds := Suc (deferreds c)\<rparr>)"
    by (simp add: update_def Let_def)
next
  assume "later_activity st (flush_loop k env) acts (c\<lparr>deferreds := Suc (deferreds c)\<rparr>) = Some c'"
  from pending_later_activity [OF this pending_start [OF assms]]
  show "resolutions (deferreds c) (effects c') = []" by (simp add: pending_def)
qed

theorem update_without_mutators_witness:
  "promises_known (provided 0)
   \<and> update (\<lambda>c. None) [] (provided 0) = Some (Returned 0, (provided 0)\<lparr>deferreds := 1\<rparr>)
   \<and> (\<exists>c'. later_activity store0 (flush_loop (Suc (Suc (Suc 0))) env_watch)
              [Update [increment_and_update], Render \<lparr>count = 2\<rparr>, Update []]
              ((provided 0)\<lparr>deferreds := Suc (deferreds (provided 0))\<rparr>) = Some c'
          \<and> state c' = \<lparr>count = 2\<rparr>
          \<and> resolutions 0 (effects c') = [])"
proof -
  have h: "promises_known (provided 0)" by (simp add: promises_known_def provided_def)
  note t = update_without_mutators [OF h, of "\<lambda>c. None" store0 "Suc (Suc (Suc 0))" env_watch
      "[Update [increment_and_update], Render \<lparr>count = 2\<rparr>, Update []]"]
  from t have 1: "update (\<lambda>c. None) [] (provided 0) = Some (Returned 0, (provided 0)\<lparr>deferreds := 1\<rparr>)"
    by (simp add: provided_def)
  from t later_activity_example
  have 2: "\<exists>c'. later_activity store0 (flush_loop (Suc (Suc (Suc 0))) env_watch)
              [Update [increment_and_update], Render \<lparr>count = 2\<rparr>, Update []]
              ((provided 0)\<lparr>deferreds := Suc (deferreds (provided 0))\<rparr>) = Some c'
          \<and> state c' = \<lparr>count = 2\<rparr>
          \<and> resolutions 0 (effects c') = []"
    by (auto simp: provided_def)
  from h 1 2 show ?thesis by blast
qed

end
